theory Spec2Isabelle
  imports Main
begin

section \<open>The element type and its environment\<close>

text \<open>
  \<^verbatim>\<open>Vector<T>\<close> is generic in its element type. What the container needs to know about
  \<^verbatim>\<open>T\<close> is collected in a record: the two compile-time traits that select the migration
  strategy, which element operations throw (as predicates on the value that is copied,
  moved or assigned from), the state a moved-from object is left in, what initialisation
  without arguments leaves in a piece of storage, and \<^verbatim>\<open>sizeof(T)\<close>. A copy or a move
  that succeeds produces an object with the value of its source; an operation that throws
  leaves its operands as they were; destructors do not throw and leave the bytes of their
  object where they are.

  \<open>default_init r\<close> is the value of the object that default-initialisation creates in
  storage whose bytes are those of the value \<open>r\<close> (\<open>None\<close>: storage in which no object has
  lived since it was allocated), or \<open>None\<close> when the default constructor throws. For a
  class whose default constructor sets every member it does not depend on \<open>r\<close>. For a
  trivially default-constructible type such as \<^verbatim>\<open>int\<close> default-initialisation writes
  nothing, and the object has the value whose bytes are there. \<open>value_init\<close> is the same
  for value-initialisation, which zeroes such a type.

  \<open>bad_alloc\<close> says for which byte counts \<^verbatim>\<open>operator new\<close> throws.
\<close>

record 'a env =
  nothrow_move_constructible :: bool
  copy_constructible :: bool
  copy_throws :: "'a \<Rightarrow> bool"
  move_throws :: "'a \<Rightarrow> bool"
  copy_assign_throws :: "'a \<Rightarrow> bool"
  move_assign_throws :: "'a \<Rightarrow> bool"
  moved_from :: "'a \<Rightarrow> 'a"
  default_init :: "'a option \<Rightarrow> 'a option"
  value_init :: "'a option \<Rightarrow> 'a option"
  sizeof_T :: nat
  bad_alloc :: "nat \<Rightarrow> bool"

text \<open>A move constructor of a type that is nothrow-move-constructible never throws.\<close>

definition move_fails :: "'a env \<Rightarrow> 'a \<Rightarrow> bool" where
  "move_fails E x = (\<not> nothrow_move_constructible E \<and> move_throws E x)"

text \<open>
  The compile-time test \<^verbatim>\<open>is_nothrow_move_constructible_v<T> || !is_copy_constructible_v<T>\<close>
  of \<^verbatim>\<open>Reserve\<close>, \<^verbatim>\<open>EmplaceBack\<close> and \<^verbatim>\<open>Emplace\<close>.
\<close>

definition migrate_by_move :: "'a env \<Rightarrow> bool" where
  "migrate_by_move E = (nothrow_move_constructible E \<or> \<not> copy_constructible E)"

text \<open>
  Object lifetimes and allocations are not visible in a vector's fields, so every
  constructor call that completes, every destructor call and every allocation or release
  of a buffer is appended to a log. \<open>Allocated n\<close> records \<^verbatim>\<open>Allocate(n)\<close> for \<open>n\<close>
  elements, and \<open>Released n xs\<close> the release of the buffer of a \<^verbatim>\<open>RawMemory\<close> of capacity
  \<open>n\<close> in which the objects \<open>xs\<close> were still alive: they are never destroyed.
\<close>

datatype 'a event =
    Allocated nat
  | Released nat "'a list"
  | Constructed 'a
  | Copied 'a
  | Moved 'a
  | Destroyed 'a

text \<open>
  A call returns a result and leaves a state, or leaves by an exception (the state is
  what the caller finds after catching it), or is made outside its contract, where C++
  defines no behaviour at all.
\<close>

datatype ('r, 's) outcome = Returned 'r 's | Thrown 's | Undefined

section \<open>Raw storage\<close>

text \<open>
  A slot of raw memory holds a live object, or it holds none and keeps the bytes of the
  object that was destroyed there last (\<open>Raw None\<close> as long as there was none). The
  block that \<^verbatim>\<open>operator new\<close> returned is the list of its slots. Using a slot outside the
  block, or an object where none lives, has no defined behaviour.

  The members \<^verbatim>\<open>buffer_\<close>, \<^verbatim>\<open>capacity_\<close>, \<^verbatim>\<open>data_\<close> and \<^verbatim>\<open>size_\<close> of the
  source are the fields \<open>m_buffer\<close>, \<open>m_capacity\<close>, \<open>m_data\<close> and \<open>m_size\<close>.
\<close>

datatype 'a slot = Object 'a | Raw "'a option"

type_synonym 'a slots = "'a slot list"

fun live :: "'a slot \<Rightarrow> 'a option" where
  "live (Object x) = Some x"
| "live (Raw r) = None"

fun bytes :: "'a slot \<Rightarrow> 'a option" where
  "bytes (Object x) = Some x"
| "bytes (Raw r) = r"

definition object_at :: "'a slots \<Rightarrow> nat \<Rightarrow> 'a option" where
  "object_at buf i = (if i < length buf then live (buf ! i) else None)"

record 'a RawMemory =
  m_buffer :: "'a slots"
  m_capacity :: nat

text \<open>
  Sizes, capacities and indices are natural numbers. The products that the source
  computes, \<^verbatim>\<open>n * sizeof(T)\<close> and \<^verbatim>\<open>size_ * 2\<close>, are products in \<^verbatim>\<open>size_t\<close>, of 64
  bits, and wrap around.
\<close>

definition size_t_mul :: "nat \<Rightarrow> nat \<Rightarrow> nat" where
  "size_t_mul a b = (a * b) mod 2 ^ 64"

text \<open>
  \<^verbatim>\<open>Allocate(n)\<close>: no allocation call for \<open>n = 0\<close>; the null buffer is the empty list.
  Otherwise the block has room for as many elements as the bytes asked for hold, which
  is fewer than \<open>n\<close> when the product has wrapped around. \<open>None\<close> when \<^verbatim>\<open>operator new\<close>
  throws.
\<close>

definition Allocate :: "'a env \<Rightarrow> nat \<Rightarrow> 'a slots option" where
  "Allocate E n =
     (if n \<noteq> 0 then
        (if bad_alloc E (size_t_mul n (sizeof_T E)) then None
         else Some (replicate (size_t_mul n (sizeof_T E) div sizeof_T E) (Raw None)))
      else Some [])"

text \<open>\<^verbatim>\<open>RawMemory(size_t capacity)\<close>; \<open>None\<close> when the allocation throws.\<close>

definition RawMemory_new :: "'a env \<Rightarrow> nat \<Rightarrow> 'a event list \<Rightarrow> ('a RawMemory \<times> 'a event list) option" where
  "RawMemory_new E capacity tr =
     (case Allocate E capacity of
        None \<Rightarrow> None
      | Some buf \<Rightarrow> Some (\<lparr>m_buffer = buf, m_capacity = capacity\<rparr>,
                          if capacity \<noteq> 0 then tr @ [Allocated capacity] else tr))"

definition alive :: "'a slots \<Rightarrow> 'a list" where
  "alive buf = List.map_filter live buf"

text \<open>
  \<^verbatim>\<open>~RawMemory()\<close>: releases the buffer and destroys nothing. \<^verbatim>\<open>operator delete\<close> does
  nothing on the null pointer; \<^verbatim>\<open>buffer_\<close> is null exactly when \<^verbatim>\<open>capacity_\<close> is 0,
  since the constructors set the two together and \<^verbatim>\<open>Swap\<close> exchanges both.
\<close>

definition Deallocate :: "'a RawMemory \<Rightarrow> 'a event list \<Rightarrow> 'a event list" where
  "Deallocate m tr = (if m_capacity m = 0 then tr else tr @ [Released (m_capacity m) (alive (m_buffer m))])"

definition RawMemory_Swap :: "'a RawMemory \<times> 'a RawMemory \<Rightarrow> 'a RawMemory \<times> 'a RawMemory" where
  "RawMemory_Swap = (\<lambda>(a, b).
     (\<lparr>m_buffer = m_buffer b, m_capacity = m_capacity b\<rparr>,
      \<lparr>m_buffer = m_buffer a, m_capacity = m_capacity a\<rparr>))"

section \<open>The standard algorithms on uninitialised memory\<close>

text \<open>
  The source calls the algorithms of \<^verbatim>\<open><memory>\<close> and \<^verbatim>\<open><algorithm>\<close>; they are modelled
  after the C++ standard. A pointer is a buffer and an index into it. The algorithms that
  construct objects destroy the objects they have constructed when a constructor throws
  (the standard leaves the order open; here it is the order of construction), and
  rethrow. The iterator an algorithm returns is not used by the source.
\<close>

definition objects :: "'a slots \<Rightarrow> nat \<Rightarrow> nat \<Rightarrow> 'a list" where
  "objects buf first n = map (\<lambda>s. the (live s)) (take n (drop first buf))"

text \<open>\<^verbatim>\<open>std::destroy_at\<close> and \<^verbatim>\<open>std::destroy_n\<close>; \<open>None\<close> where there is no object to destroy.\<close>

definition destroy_at :: "'a slots \<Rightarrow> nat \<Rightarrow> 'a event list \<Rightarrow> ('a slots \<times> 'a event list) option" where
  "destroy_at buf i tr =
     (case object_at buf i of
        None \<Rightarrow> None
      | Some x \<Rightarrow> Some (buf[i := Raw (Some x)], tr @ [Destroyed x]))"

fun destroy_n :: "'a slots \<Rightarrow> nat \<Rightarrow> nat \<Rightarrow> 'a event list \<Rightarrow> ('a slots \<times> 'a event list) option" where
  "destroy_n buf first 0 tr = Some (buf, tr)"
| "destroy_n buf first (Suc n) tr =
     (case destroy_at buf first tr of
        None \<Rightarrow> None
      | Some (buf', tr') \<Rightarrow> destroy_n buf' (Suc first) n tr')"

text \<open>What the caller of an algorithm finds when a constructor has thrown.\<close>

definition rolled_back :: "('a slots \<times> 'a event list) option \<Rightarrow> (unit, 'a slots \<times> 'a event list) outcome" where
  "rolled_back r = (case r of None \<Rightarrow> Undefined | Some s \<Rightarrow> Thrown s)"

text \<open>\<open>cur\<close> is the cursor into the destination, \<open>d_first\<close> where the algorithm started.\<close>

fun uninitialized_copy_from ::
  "'a env \<Rightarrow> 'a slots \<Rightarrow> nat \<Rightarrow> nat \<Rightarrow> 'a slots \<Rightarrow> nat \<Rightarrow> nat \<Rightarrow> 'a event list
     \<Rightarrow> (unit, 'a slots \<times> 'a event list) outcome" where
  "uninitialized_copy_from E src first 0 dst d_first cur tr = Returned () (dst, tr)"
| "uninitialized_copy_from E src first (Suc n) dst d_first cur tr =
     (case object_at src first of
        None \<Rightarrow> Undefined
      | Some x \<Rightarrow>
          if length dst \<le> cur then Undefined
          else if copy_throws E x then rolled_back (destroy_n dst d_first (cur - d_first) tr)
          else uninitialized_copy_from E src (Suc first) n (dst[cur := Object x]) d_first (Suc cur)
                 (tr @ [Copied x]))"

definition uninitialized_copy_n ::
  "'a env \<Rightarrow> 'a slots \<Rightarrow> nat \<Rightarrow> nat \<Rightarrow> 'a slots \<Rightarrow> nat \<Rightarrow> 'a event list
     \<Rightarrow> (unit, 'a slots \<times> 'a event list) outcome" where
  "uninitialized_copy_n E src first n dst d_first tr =
     uninitialized_copy_from E src first n dst d_first d_first tr"

text \<open>
  Moving changes the source as well: a moved-from object stays alive. The state is the
  source buffer, the destination buffer and the log.
\<close>

fun uninitialized_move_from ::
  "'a env \<Rightarrow> 'a slots \<Rightarrow> nat \<Rightarrow> nat \<Rightarrow> 'a slots \<Rightarrow> nat \<Rightarrow> nat \<Rightarrow> 'a event list
     \<Rightarrow> (unit, 'a slots \<times> 'a slots \<times> 'a event list) outcome" where
  "uninitialized_move_from E src first 0 dst d_first cur tr = Returned () (src, dst, tr)"
| "uninitialized_move_from E src first (Suc n) dst d_first cur tr =
     (case object_at src first of
        None \<Rightarrow> Undefined
      | Some x \<Rightarrow>
          if length dst \<le> cur then Undefined
          else if move_fails E x
          then (case destroy_n dst d_first (cur - d_first) tr of
                  None \<Rightarrow> Undefined
                | Some (dst', tr') \<Rightarrow> Thrown (src, dst', tr'))
          else uninitialized_move_from E (src[first := Object (moved_from E x)]) (Suc first) n
                 (dst[cur := Object x]) d_first (Suc cur) (tr @ [Moved x]))"

definition uninitialized_move_n ::
  "'a env \<Rightarrow> 'a slots \<Rightarrow> nat \<Rightarrow> nat \<Rightarrow> 'a slots \<Rightarrow> nat \<Rightarrow> 'a event list
     \<Rightarrow> (unit, 'a slots \<times> 'a slots \<times> 'a event list) outcome" where
  "uninitialized_move_n E src first n dst d_first tr =
     uninitialized_move_from E src first n dst d_first d_first tr"

text \<open>
  \<^verbatim>\<open>std::uninitialized_default_construct_n\<close> default-initialises and
  \<^verbatim>\<open>std::uninitialized_value_construct_n\<close> value-initialises each object, in the bytes
  that its slot holds; \<open>init\<close> is the one or the other.
\<close>

fun uninitialized_construct_from ::
  "('a option \<Rightarrow> 'a option) \<Rightarrow> 'a slots \<Rightarrow> nat \<Rightarrow> nat \<Rightarrow> nat \<Rightarrow> 'a event list
     \<Rightarrow> (unit, 'a slots \<times> 'a event list) outcome" where
  "uninitialized_construct_from init buf first cur 0 tr = Returned () (buf, tr)"
| "uninitialized_construct_from init buf first cur (Suc n) tr =
     (if length buf \<le> cur then Undefined
      else case init (bytes (buf ! cur)) of
             None \<Rightarrow> rolled_back (destroy_n buf first (cur - first) tr)
           | Some d \<Rightarrow> uninitialized_construct_from init (buf[cur := Object d]) first (Suc cur) n
                        (tr @ [Constructed d]))"

definition uninitialized_default_construct_n ::
  "'a env \<Rightarrow> 'a slots \<Rightarrow> nat \<Rightarrow> nat \<Rightarrow> 'a event list \<Rightarrow> (unit, 'a slots \<times> 'a event list) outcome" where
  "uninitialized_default_construct_n E buf first n tr =
     uninitialized_construct_from (default_init E) buf first first n tr"

definition uninitialized_value_construct_n ::
  "'a env \<Rightarrow> 'a slots \<Rightarrow> nat \<Rightarrow> nat \<Rightarrow> 'a event list \<Rightarrow> (unit, 'a slots \<times> 'a event list) outcome" where
  "uninitialized_value_construct_n E buf first n tr =
     uninitialized_construct_from (value_init E) buf first first n tr"

text \<open>
  \<^verbatim>\<open>std::copy_n\<close> assigns to live objects; an assignment that throws leaves its target as
  it was. Assignments start and end no lifetime, so they leave the log alone.
\<close>

fun copy_n :: "'a env \<Rightarrow> 'a slots \<Rightarrow> nat \<Rightarrow> nat \<Rightarrow> 'a slots \<Rightarrow> nat \<Rightarrow> (unit, 'a slots) outcome" where
  "copy_n E src first 0 dst d_first = Returned () dst"
| "copy_n E src first (Suc n) dst d_first =
     (case object_at src first of
        None \<Rightarrow> Undefined
      | Some x \<Rightarrow>
          if object_at dst d_first = None then Undefined
          else if copy_assign_throws E x then Thrown dst
          else copy_n E src (Suc first) n (dst[d_first := Object x]) (Suc d_first))"

text \<open>\<^verbatim>\<open>std::move(first, last, d_first)\<close> within one buffer, front to back.\<close>

function move_range :: "'a env \<Rightarrow> 'a slots \<Rightarrow> nat \<Rightarrow> nat \<Rightarrow> nat \<Rightarrow> (unit, 'a slots) outcome" where
  "move_range E buf first stop d_first =
     (if first < stop then
        (case object_at buf first of
           None \<Rightarrow> Undefined
         | Some x \<Rightarrow>
             if object_at buf d_first = None then Undefined
             else if move_assign_throws E x then Thrown buf
             else move_range E (buf[first := Object (moved_from E x), d_first := Object x])
                    (Suc first) stop (Suc d_first))
      else Returned () buf)"
  by pat_completeness auto
termination
  by (relation "measure (\<lambda>(E, buf, first, stop, d_first). stop - first)") auto

text \<open>\<^verbatim>\<open>std::move_backward(first, last, d_last)\<close> within one buffer, back to front.\<close>

fun move_backward :: "'a env \<Rightarrow> 'a slots \<Rightarrow> nat \<Rightarrow> nat \<Rightarrow> nat \<Rightarrow> (unit, 'a slots) outcome" where
  "move_backward E buf first stop d_last =
     (if first < stop then
        (case object_at buf (stop - 1) of
           None \<Rightarrow> Undefined
         | Some x \<Rightarrow>
             if d_last = 0 \<or> object_at buf (d_last - 1) = None then Undefined
             else if move_assign_throws E x then Thrown buf
             else move_backward E (buf[stop - 1 := Object (moved_from E x), d_last - 1 := Object x])
                    first (stop - 1) (d_last - 1))
      else Returned () buf)"

declare move_range.simps [simp del]
declare move_backward.simps [simp del]

section \<open>The vector\<close>

record 'a Vector =
  m_data :: "'a RawMemory"
  m_size :: nat

definition Capacity :: "'a Vector \<Rightarrow> nat" where
  "Capacity v = m_capacity (m_data v)"

definition Size :: "'a Vector \<Rightarrow> nat" where
  "Size v = m_size v"

text \<open>The memory \<^verbatim>\<open>begin()\<close> points to, and the same vector after writes into that memory.\<close>

definition slots_of :: "'a Vector \<Rightarrow> 'a slots" where
  "slots_of v = m_buffer (m_data v)"

definition with_slots :: "'a Vector \<Rightarrow> 'a slots \<Rightarrow> 'a Vector" where
  "with_slots v buf = v\<lparr>m_data := (m_data v)\<lparr>m_buffer := buf\<rparr>\<rparr>"

text \<open>The visible sequence \<^verbatim>\<open>[begin(), end())\<close>.\<close>

definition elems :: "'a Vector \<Rightarrow> 'a list" where
  "elems v = objects (slots_of v) 0 (m_size v)"

text \<open>
  The invariant of the data model: the capacity is the number of slots of the buffer, the
  size does not exceed it, the slots below the size hold live objects and the slots from
  the size on hold none.
\<close>

definition Vector_inv :: "'a Vector \<Rightarrow> bool" where
  "Vector_inv v =
     (length (slots_of v) = Capacity v \<and> m_size v \<le> Capacity v
      \<and> list_all (\<lambda>s. live s \<noteq> None) (take (m_size v) (slots_of v))
      \<and> list_all (\<lambda>s. live s = None) (drop (m_size v) (slots_of v)))"

text \<open>\<^verbatim>\<open>Vector() = default\<close>.\<close>

definition Vector_default :: "'a Vector" where
  "Vector_default = \<lparr>m_data = \<lparr>m_buffer = [], m_capacity = 0\<rparr>, m_size = 0\<rparr>"

text \<open>\<^verbatim>\<open>Vector::Swap\<close> on two distinct objects.\<close>

definition Swap :: "'a Vector \<times> 'a Vector \<Rightarrow> 'a Vector \<times> 'a Vector" where
  "Swap = (\<lambda>(this, other).
     (case RawMemory_Swap (m_data this, m_data other) of
        (d, d') \<Rightarrow> (\<lparr>m_data = d, m_size = m_size other\<rparr>, \<lparr>m_data = d', m_size = m_size this\<rparr>)))"

text \<open>
  \<^verbatim>\<open>~Vector()\<close>: destroys the elements, then the member releases the buffer; \<open>None\<close>
  when there is no object in a slot below the size.
\<close>

definition Vector_dtor :: "'a Vector \<Rightarrow> 'a event list \<Rightarrow> 'a event list option" where
  "Vector_dtor v tr =
     (case destroy_n (slots_of v) 0 (m_size v) tr of
        None \<Rightarrow> None
      | Some (buf, tr') \<Rightarrow> Some (Deallocate ((m_data v)\<lparr>m_buffer := buf\<rparr>) tr'))"

text \<open>
  \<^verbatim>\<open>Vector(size_t size)\<close>. A constructor that throws leaves no object: only the log
  remains, and the member \<^verbatim>\<open>data_\<close>, which was complete, is released.
\<close>

definition Vector_sized :: "'a env \<Rightarrow> nat \<Rightarrow> 'a event list \<Rightarrow> ('a Vector, 'a event list) outcome" where
  "Vector_sized E n tr =
     (case RawMemory_new E n tr of
        None \<Rightarrow> Thrown tr
      | Some (d, tr1) \<Rightarrow>
          (case uninitialized_value_construct_n E (m_buffer d) 0 n tr1 of
             Thrown (buf, tr2) \<Rightarrow> Thrown (Deallocate (d\<lparr>m_buffer := buf\<rparr>) tr2)
           | Returned _ (buf, tr2) \<Rightarrow> Returned \<lparr>m_data = d\<lparr>m_buffer := buf\<rparr>, m_size = n\<rparr> tr2
           | Undefined \<Rightarrow> Undefined))"

text \<open>\<^verbatim>\<open>Vector(const Vector& other)\<close>.\<close>

definition Vector_copy :: "'a env \<Rightarrow> 'a Vector \<Rightarrow> 'a event list \<Rightarrow> ('a Vector, 'a event list) outcome" where
  "Vector_copy E other tr =
     (case RawMemory_new E (m_size other) tr of
        None \<Rightarrow> Thrown tr
      | Some (d, tr1) \<Rightarrow>
          (case uninitialized_copy_n E (slots_of other) 0 (m_size other) (m_buffer d) 0 tr1 of
             Thrown (buf, tr2) \<Rightarrow> Thrown (Deallocate (d\<lparr>m_buffer := buf\<rparr>) tr2)
           | Returned _ (buf, tr2) \<Rightarrow>
               Returned \<lparr>m_data = d\<lparr>m_buffer := buf\<rparr>, m_size = m_size other\<rparr> tr2
           | Undefined \<Rightarrow> Undefined))"

text \<open>
  \<^verbatim>\<open>Vector(Vector&& other)\<close>: the members take their default initialisers, then
  \<^verbatim>\<open>Swap(other)\<close>. The result is the new object and what is left of \<open>other\<close>.
\<close>

definition Vector_move :: "'a Vector \<Rightarrow> 'a Vector \<times> 'a Vector" where
  "Vector_move other = Swap (Vector_default, other)"

text \<open>
  Assignment takes a reference that may name the assigned object itself, and the copy
  assignment asks. So the two assignment operators work on a store of vector objects,
  addressed by numbers: \<open>this\<close> and \<open>rhs\<close> are addresses, equal when the objects are
  the same.
\<close>

type_synonym 'a store = "nat \<Rightarrow> 'a Vector"

definition Swap_at :: "nat \<Rightarrow> nat \<Rightarrow> 'a store \<Rightarrow> 'a store" where
  "Swap_at this other st =
     (case Swap (st this, st other) of (t, oth) \<Rightarrow> (st(this := t))(other := oth))"

text \<open>\<^verbatim>\<open>operator=(const Vector& rhs)\<close>.\<close>

definition copy_assign ::
  "'a env \<Rightarrow> nat \<Rightarrow> nat \<Rightarrow> 'a store \<times> 'a event list \<Rightarrow> (unit, 'a store \<times> 'a event list) outcome" where
  "copy_assign E this rhs = (\<lambda>(st, tr).
     if this \<noteq> rhs then
       (if m_size (st rhs) > Capacity (st this) then
          (case Vector_copy E (st rhs) tr of
             Thrown tr1 \<Rightarrow> Thrown (st, tr1)
           | Returned new_vector tr1 \<Rightarrow>
               (case Swap (st this, new_vector) of
                  (t, new_vector') \<Rightarrow>
                    (case Vector_dtor new_vector' tr1 of
                       None \<Rightarrow> Undefined
                     | Some tr2 \<Rightarrow> Returned () (st(this := t), tr2)))
           | Undefined \<Rightarrow> Undefined)
        else
          (if m_size (st rhs) < m_size (st this) then
             (case copy_n E (slots_of (st rhs)) 0 (m_size (st rhs)) (slots_of (st this)) 0 of
                Thrown buf \<Rightarrow> Thrown (st(this := with_slots (st this) buf), tr)
              | Returned _ buf \<Rightarrow>
                  (case destroy_n buf (m_size (st rhs)) (m_size (st this) - m_size (st rhs)) tr of
                     None \<Rightarrow> Undefined
                   | Some (buf', tr') \<Rightarrow>
                       Returned () (st(this := (with_slots (st this) buf')\<lparr>m_size := m_size (st rhs)\<rparr>), tr'))
              | Undefined \<Rightarrow> Undefined)
           else
             (case copy_n E (slots_of (st rhs)) 0 (m_size (st this)) (slots_of (st this)) 0 of
                Thrown buf \<Rightarrow> Thrown (st(this := with_slots (st this) buf), tr)
              | Returned _ buf \<Rightarrow>
                  (case uninitialized_copy_n E (slots_of (st rhs)) (m_size (st this))
                          (m_size (st rhs) - m_size (st this)) buf (m_size (st this)) tr of
                     Thrown (buf', tr') \<Rightarrow> Thrown (st(this := with_slots (st this) buf'), tr')
                   | Returned _ (buf', tr') \<Rightarrow>
                       Returned () (st(this := (with_slots (st this) buf')\<lparr>m_size := m_size (st rhs)\<rparr>), tr')
                   | Undefined \<Rightarrow> Undefined)
              | Undefined \<Rightarrow> Undefined)))
     else Returned () (st, tr))"

text \<open>\<^verbatim>\<open>operator=(Vector&& rhs)\<close>: \<^verbatim>\<open>Swap(rhs)\<close>, nothing else.\<close>

definition move_assign :: "nat \<Rightarrow> nat \<Rightarrow> 'a store \<Rightarrow> 'a store" where
  "move_assign this rhs st = Swap_at this rhs st"

text \<open>\<^verbatim>\<open>Reserve(capacity)\<close>.\<close>

definition Reserve ::
  "'a env \<Rightarrow> nat \<Rightarrow> 'a Vector \<times> 'a event list \<Rightarrow> (unit, 'a Vector \<times> 'a event list) outcome" where
  "Reserve E capacity = (\<lambda>(v, tr).
     if capacity \<le> Capacity v then Returned () (v, tr)
     else
       (case RawMemory_new E capacity tr of
          None \<Rightarrow> Thrown (v, tr)
        | Some (new_data, tr1) \<Rightarrow>
            if migrate_by_move E then
              (case uninitialized_move_n E (slots_of v) 0 (m_size v) (m_buffer new_data) 0 tr1 of
                 Thrown (src, dst, tr2) \<Rightarrow>
                   Thrown (with_slots v src, Deallocate (new_data\<lparr>m_buffer := dst\<rparr>) tr2)
               | Returned _ (src, dst, tr2) \<Rightarrow>
                   (case destroy_n src 0 (m_size v) tr2 of
                      None \<Rightarrow> Undefined
                    | Some (old, tr3) \<Rightarrow>
                        (case RawMemory_Swap (m_data (with_slots v old), new_data\<lparr>m_buffer := dst\<rparr>) of
                           (d, new_data') \<Rightarrow> Returned () (v\<lparr>m_data := d\<rparr>, Deallocate new_data' tr3)))
               | Undefined \<Rightarrow> Undefined)
            else
              (case uninitialized_copy_n E (slots_of v) 0 (m_size v) (m_buffer new_data) 0 tr1 of
                 Thrown (dst, tr2) \<Rightarrow> Thrown (v, Deallocate (new_data\<lparr>m_buffer := dst\<rparr>) tr2)
               | Returned _ (dst, tr2) \<Rightarrow>
                   (case destroy_n (slots_of v) 0 (m_size v) tr2 of
                      None \<Rightarrow> Undefined
                    | Some (old, tr3) \<Rightarrow>
                        (case RawMemory_Swap (m_data (with_slots v old), new_data\<lparr>m_buffer := dst\<rparr>) of
                           (d, new_data') \<Rightarrow> Returned () (v\<lparr>m_data := d\<rparr>, Deallocate new_data' tr3)))
               | Undefined \<Rightarrow> Undefined)))"

text \<open>\<^verbatim>\<open>Resize(new_size)\<close>.\<close>

definition Resize ::
  "'a env \<Rightarrow> nat \<Rightarrow> 'a Vector \<times> 'a event list \<Rightarrow> (unit, 'a Vector \<times> 'a event list) outcome" where
  "Resize E new_size = (\<lambda>(v, tr).
     if new_size = m_size v then Returned () (v, tr)
     else if new_size < m_size v then
       (case destroy_n (slots_of v) new_size (m_size v - new_size) tr of
          None \<Rightarrow> Undefined
        | Some (buf, tr1) \<Rightarrow> Returned () ((with_slots v buf)\<lparr>m_size := new_size\<rparr>, tr1))
     else
       (case Reserve E new_size (v, tr) of
          Thrown s \<Rightarrow> Thrown s
        | Returned _ (v1, tr1) \<Rightarrow>
            (case uninitialized_default_construct_n E (slots_of v1) (m_size v1)
                    (new_size - m_size v1) tr1 of
               Thrown (buf, tr2) \<Rightarrow> Thrown (with_slots v1 buf, tr2)
             | Returned _ (buf, tr2) \<Rightarrow> Returned () ((with_slots v1 buf)\<lparr>m_size := new_size\<rparr>, tr2)
             | Undefined \<Rightarrow> Undefined)
        | Undefined \<Rightarrow> Undefined))"

text \<open>
  \<^verbatim>\<open>EmplaceBack(args...)\<close>. The argument is the outcome of \<^verbatim>\<open>T(std::forward<Args>(args)...)\<close>:
  the value constructed, or \<open>None\<close> when that constructor throws. The reference returned
  is the index of the new element. The product \<^verbatim>\<open>size_ * 2\<close> is one of \<^verbatim>\<open>size_t\<close> as
  well. The assertions of \<^verbatim>\<open>RawMemory::operator+\<close> and \<^verbatim>\<open>RawMemory::operator[]\<close> hold
  in the second branch when the size is below the capacity.
\<close>

definition EmplaceBack ::
  "'a env \<Rightarrow> 'a option \<Rightarrow> 'a Vector \<times> 'a event list \<Rightarrow> (nat, 'a Vector \<times> 'a event list) outcome" where
  "EmplaceBack E args = (\<lambda>(v, tr).
     if m_size v = Capacity v then
       (case RawMemory_new E (if m_size v = 0 then 1 else size_t_mul (m_size v) 2) tr of
          None \<Rightarrow> Thrown (v, tr)
        | Some (new_data, tr1) \<Rightarrow>
          if length (m_buffer new_data) \<le> m_size v then Undefined
          else
          (case args of
             None \<Rightarrow> Thrown (v, Deallocate new_data tr1)
           | Some x \<Rightarrow>
             (let buf1 = (m_buffer new_data)[m_size v := Object x]; tr2 = tr1 @ [Constructed x] in
              if migrate_by_move E then
                (case uninitialized_move_n E (slots_of v) 0 (m_size v) buf1 0 tr2 of
                   Thrown (src, dst, tr3) \<Rightarrow>
                     Thrown (with_slots v src, Deallocate (new_data\<lparr>m_buffer := dst\<rparr>) tr3)
                 | Returned _ (src, dst, tr3) \<Rightarrow>
                     (case RawMemory_Swap (m_data (with_slots v src), new_data\<lparr>m_buffer := dst\<rparr>) of
                        (d, new_data') \<Rightarrow>
                          (case destroy_n (m_buffer new_data') 0 (m_size v) tr3 of
                             None \<Rightarrow> Undefined
                           | Some (old, tr4) \<Rightarrow>
                               Returned (m_size v)
                                 (\<lparr>m_data = d, m_size = m_size v + 1\<rparr>,
                                  Deallocate (new_data'\<lparr>m_buffer := old\<rparr>) tr4)))
                 | Undefined \<Rightarrow> Undefined)
              else
                (case uninitialized_copy_n E (slots_of v) 0 (m_size v) buf1 0 tr2 of
                   Thrown (dst, tr3) \<Rightarrow> Thrown (v, Deallocate (new_data\<lparr>m_buffer := dst\<rparr>) tr3)
                 | Returned _ (dst, tr3) \<Rightarrow>
                     (case RawMemory_Swap (m_data v, new_data\<lparr>m_buffer := dst\<rparr>) of
                        (d, new_data') \<Rightarrow>
                          (case destroy_n (m_buffer new_data') 0 (m_size v) tr3 of
                             None \<Rightarrow> Undefined
                           | Some (old, tr4) \<Rightarrow>
                               Returned (m_size v)
                                 (\<lparr>m_data = d, m_size = m_size v + 1\<rparr>,
                                  Deallocate (new_data'\<lparr>m_buffer := old\<rparr>) tr4)))
                 | Undefined \<Rightarrow> Undefined))))
     else if m_size v < Capacity v then
       (if length (slots_of v) \<le> m_size v then Undefined
        else
          (case args of
             None \<Rightarrow> Thrown (v, tr)
           | Some x \<Rightarrow>
               Returned (m_size v)
                 ((with_slots v ((slots_of v)[m_size v := Object x]))\<lparr>m_size := m_size v + 1\<rparr>,
                  tr @ [Constructed x])))
     else Undefined)"

text \<open>
  \<^verbatim>\<open>PushBack(const T&)\<close> copy-constructs the new element from its argument,
  \<^verbatim>\<open>PushBack(T&&)\<close> move-constructs it.
\<close>

definition PushBack ::
  "'a env \<Rightarrow> 'a \<Rightarrow> 'a Vector \<times> 'a event list \<Rightarrow> (nat, 'a Vector \<times> 'a event list) outcome" where
  "PushBack E val = EmplaceBack E (if copy_throws E val then None else Some val)"

definition PushBack_rvalue ::
  "'a env \<Rightarrow> 'a \<Rightarrow> 'a Vector \<times> 'a event list \<Rightarrow> (nat, 'a Vector \<times> 'a event list) outcome" where
  "PushBack_rvalue E val = EmplaceBack E (if move_fails E val then None else Some val)"

text \<open>\<^verbatim>\<open>PopBack()\<close>; on an empty vector \<^verbatim>\<open>end() - 1\<close> is no address of an element.\<close>

definition PopBack :: "'a Vector \<times> 'a event list \<Rightarrow> (unit, 'a Vector \<times> 'a event list) outcome" where
  "PopBack = (\<lambda>(v, tr).
     if m_size v = 0 then Undefined
     else
       (case destroy_at (slots_of v) (m_size v - 1) tr of
          None \<Rightarrow> Undefined
        | Some (buf, tr') \<Rightarrow> Returned () ((with_slots v buf)\<lparr>m_size := m_size v - 1\<rparr>, tr')))"

text \<open>
  \<^verbatim>\<open>Emplace(pos, args...)\<close>. An iterator is the index it points to, and the contract is
  that \<open>pos\<close> lies in \<^verbatim>\<open>[begin(), end()]\<close>. When the capacity is not exhausted, the local
  \<^verbatim>\<open>temp\<close> is destroyed on every way out of its scope, and the assertions of
  \<^verbatim>\<open>RawMemory\<close> hold when the size is below the capacity.
\<close>

definition Emplace ::
  "'a env \<Rightarrow> nat \<Rightarrow> 'a option \<Rightarrow> 'a Vector \<times> 'a event list
     \<Rightarrow> (nat, 'a Vector \<times> 'a event list) outcome" where
  "Emplace E pos args = (\<lambda>(v, tr).
     if m_size v < pos then Undefined
     else if pos = m_size v then EmplaceBack E args (v, tr)
     else
       (let index = pos in
        if m_size v = Capacity v then
          (case RawMemory_new E (if m_size v = 0 then 1 else size_t_mul (m_size v) 2) tr of
             None \<Rightarrow> Thrown (v, tr)
           | Some (new_data, tr1) \<Rightarrow>
             if length (m_buffer new_data) \<le> index then Undefined
             else
             (case args of
                None \<Rightarrow> Thrown (v, Deallocate new_data tr1)
              | Some x \<Rightarrow>
                (let buf1 = (m_buffer new_data)[index := Object x]; tr2 = tr1 @ [Constructed x] in
                 if migrate_by_move E then
                   (case uninitialized_move_n E (slots_of v) 0 index buf1 0 tr2 of
                      Thrown (src, dst, tr3) \<Rightarrow>
                        Thrown (with_slots v src, Deallocate (new_data\<lparr>m_buffer := dst\<rparr>) tr3)
                    | Returned _ (src, dst, tr3) \<Rightarrow>
                        (case uninitialized_move_n E src index (m_size v - index) dst (index + 1) tr3 of
                           Thrown (src', dst', tr4) \<Rightarrow>
                             Thrown (with_slots v src', Deallocate (new_data\<lparr>m_buffer := dst'\<rparr>) tr4)
                         | Returned _ (src', dst', tr4) \<Rightarrow>
                             (case destroy_n src' 0 (m_size v) tr4 of
                                None \<Rightarrow> Undefined
                              | Some (old, tr5) \<Rightarrow>
                                  (case RawMemory_Swap (m_data (with_slots v old),
                                                        new_data\<lparr>m_buffer := dst'\<rparr>) of
                                     (d, new_data') \<Rightarrow>
                                       Returned index
                                         (\<lparr>m_data = d, m_size = m_size v + 1\<rparr>,
                                          Deallocate new_data' tr5)))
                         | Undefined \<Rightarrow> Undefined)
                    | Undefined \<Rightarrow> Undefined)
                 else
                   (case uninitialized_copy_n E (slots_of v) 0 index buf1 0 tr2 of
                      Thrown (dst, tr3) \<Rightarrow>
                        (case destroy_at dst index tr3 of
                           None \<Rightarrow> Undefined
                         | Some (dst', tr4) \<Rightarrow>
                             Thrown (v, Deallocate (new_data\<lparr>m_buffer := dst'\<rparr>) tr4))
                    | Returned _ (dst, tr3) \<Rightarrow>
                        (case uninitialized_copy_n E (slots_of v) index (m_size v - index)
                                dst (index + 1) tr3 of
                           Thrown (dst', tr4) \<Rightarrow>
                             (case destroy_n dst' 0 (index + 1) tr4 of
                                None \<Rightarrow> Undefined
                              | Some (dst'', tr5) \<Rightarrow>
                                  Thrown (v, Deallocate (new_data\<lparr>m_buffer := dst''\<rparr>) tr5))
                         | Returned _ (dst', tr4) \<Rightarrow>
                             (case destroy_n (slots_of v) 0 (m_size v) tr4 of
                                None \<Rightarrow> Undefined
                              | Some (old, tr5) \<Rightarrow>
                                  (case RawMemory_Swap (m_data (with_slots v old),
                                                        new_data\<lparr>m_buffer := dst'\<rparr>) of
                                     (d, new_data') \<Rightarrow>
                                       Returned index
                                         (\<lparr>m_data = d, m_size = m_size v + 1\<rparr>,
                                          Deallocate new_data' tr5)))
                         | Undefined \<Rightarrow> Undefined)
                    | Undefined \<Rightarrow> Undefined))))
        else
          (case args of
             None \<Rightarrow> Thrown (v, tr)
           | Some temp \<Rightarrow>
             if m_size v < Capacity v then
               (let tr1 = tr @ [Constructed temp] in
                case object_at (slots_of v) (m_size v - 1) of
                  None \<Rightarrow> Undefined
                | Some back \<Rightarrow>
                    if length (slots_of v) \<le> m_size v then Undefined
                    else if move_fails E back then Thrown (v, tr1 @ [Destroyed temp])
                    else
                      (let buf1 = (slots_of v)[m_size v - 1 := Object (moved_from E back),
                                               m_size v := Object back];
                           tr2 = tr1 @ [Moved back] in
                       case move_backward E buf1 index (m_size v - 1) (m_size v) of
                         Thrown buf2 \<Rightarrow> Thrown (with_slots v buf2, tr2 @ [Destroyed temp])
                       | Returned _ buf2 \<Rightarrow>
                           if object_at buf2 index = None then Undefined
                           else if move_assign_throws E temp
                           then Thrown (with_slots v buf2, tr2 @ [Destroyed temp])
                           else
                             Returned index
                               ((with_slots v (buf2[index := Object temp]))\<lparr>m_size := m_size v + 1\<rparr>,
                                tr2 @ [Destroyed (moved_from E temp)])
                       | Undefined \<Rightarrow> Undefined))
             else Undefined)))"

text \<open>\<^verbatim>\<open>Insert(pos, const T&)\<close> and \<^verbatim>\<open>Insert(pos, T&&)\<close>.\<close>

definition Insert ::
  "'a env \<Rightarrow> nat \<Rightarrow> 'a \<Rightarrow> 'a Vector \<times> 'a event list \<Rightarrow> (nat, 'a Vector \<times> 'a event list) outcome" where
  "Insert E pos val = Emplace E pos (if copy_throws E val then None else Some val)"

definition Insert_rvalue ::
  "'a env \<Rightarrow> nat \<Rightarrow> 'a \<Rightarrow> 'a Vector \<times> 'a event list \<Rightarrow> (nat, 'a Vector \<times> 'a event list) outcome" where
  "Insert_rvalue E pos val = Emplace E pos (if move_fails E val then None else Some val)"

text \<open>
  \<^verbatim>\<open>Erase(pos)\<close>; the contract is that \<open>pos\<close> lies in \<^verbatim>\<open>[begin(), end())\<close>. The iterator
  returned points to the index erased, which is \<^verbatim>\<open>end()\<close> after the last element went.
\<close>

definition Erase ::
  "'a env \<Rightarrow> nat \<Rightarrow> 'a Vector \<times> 'a event list \<Rightarrow> (nat, 'a Vector \<times> 'a event list) outcome" where
  "Erase E pos = (\<lambda>(v, tr).
     if m_size v \<le> pos then Undefined
     else if pos = m_size v - 1 then
       (case PopBack (v, tr) of
          Returned _ (v1, tr1) \<Rightarrow> Returned (m_size v1) (v1, tr1)
        | Thrown s \<Rightarrow> Thrown s
        | Undefined \<Rightarrow> Undefined)
     else
       (let index = pos in
        case move_range E (slots_of v) (index + 1) (m_size v) index of
          Thrown buf \<Rightarrow> Thrown (with_slots v buf, tr)
        | Returned _ buf \<Rightarrow>
            (case destroy_at buf (m_size v - 1) tr of
               None \<Rightarrow> Undefined
             | Some (buf', tr') \<Rightarrow>
                 Returned index ((with_slots v buf')\<lparr>m_size := m_size v - 1\<rparr>, tr'))
        | Undefined \<Rightarrow> Undefined))"

section \<open>Vectors by their contents, and callers\<close>

text \<open>
  The vector that holds the elements \<open>xs\<close>, followed by slots without an object that
  keep the bytes \<open>rs\<close>. Every vector that satisfies the invariant is of this form, so a
  statement about all \<open>vector_with xs rs\<close> is a statement about all such vectors.
  \<open>vector_of xs cap\<close> is the one of capacity \<open>cap\<close> in whose spare slots no object has
  lived yet.
\<close>

definition vector_with :: "'a list \<Rightarrow> 'a option list \<Rightarrow> 'a Vector" where
  "vector_with xs rs =
     \<lparr>m_data = \<lparr>m_buffer = map Object xs @ map Raw rs, m_capacity = length xs + length rs\<rparr>,
      m_size = length xs\<rparr>"

definition vector_of :: "'a list \<Rightarrow> nat \<Rightarrow> 'a Vector" where
  "vector_of xs cap =
     \<lparr>m_data = \<lparr>m_buffer = map Object xs @ replicate (cap - length xs) (Raw None), m_capacity = cap\<rparr>,
      m_size = length xs\<rparr>"

text \<open>The bytes in the slots from the size on.\<close>

definition spare :: "'a Vector \<Rightarrow> 'a option list" where
  "spare v = map bytes (drop (m_size v) (slots_of v))"

text \<open>
  A caller that appends one element after the other and stops at the first call that does
  not return. Each entry is the outcome of constructing that element from its arguments.
\<close>

fun append_all ::
  "'a env \<Rightarrow> 'a option list \<Rightarrow> 'a Vector \<times> 'a event list
     \<Rightarrow> (unit, 'a Vector \<times> 'a event list) outcome" where
  "append_all E [] s = Returned () s"
| "append_all E (a # as) s =
     (case EmplaceBack E a s of
        Returned _ s' \<Rightarrow> append_all E as s'
      | Thrown s' \<Rightarrow> Thrown s'
      | Undefined \<Rightarrow> Undefined)"

text \<open>
  \<open>fits E n\<close>: the byte size of \<open>n\<close> elements is a value of \<^verbatim>\<open>size_t\<close>, so the product in
  \<^verbatim>\<open>Allocate\<close> does not wrap around. \<open>allocates E n\<close>: moreover \<^verbatim>\<open>operator new\<close> does
  not throw for it, so that \<^verbatim>\<open>Allocate(n)\<close> returns a block of \<open>n\<close> slots.
\<close>

definition fits :: "'a env \<Rightarrow> nat \<Rightarrow> bool" where
  "fits E n = (0 < sizeof_T E \<and> n * sizeof_T E < 2 ^ 64)"

definition allocates :: "'a env \<Rightarrow> nat \<Rightarrow> bool" where
  "allocates E n = (fits E n \<and> \<not> bad_alloc E (n * sizeof_T E))"

text \<open>
  The vectors that a program obtains from the public operations when each call returns
  and each count that the program passes is one whose byte size is a value of
  \<^verbatim>\<open>size_t\<close>: one rule for each constructor and each operation, for the object it acts on
  and, where a second vector changes as well, for that one.
\<close>

inductive reachable :: "'a env \<Rightarrow> 'a Vector \<Rightarrow> bool" for E :: "'a env" where
  by_default: "reachable E Vector_default"
| by_size: "fits E n \<Longrightarrow> Vector_sized E n tr = Returned v tr' \<Longrightarrow> reachable E v"
| by_copy: "reachable E u \<Longrightarrow> Vector_copy E u tr = Returned v tr' \<Longrightarrow> reachable E v"
| by_move: "reachable E u \<Longrightarrow> Vector_move u = (v, u') \<Longrightarrow> reachable E v"
| moved_out: "reachable E u \<Longrightarrow> Vector_move u = (v, u') \<Longrightarrow> reachable E u'"
| by_copy_assign:
    "reachable E (st this) \<Longrightarrow> reachable E (st rhs) \<Longrightarrow>
     copy_assign E this rhs (st, tr) = Returned () (st', tr') \<Longrightarrow> reachable E (st' this)"
| by_move_assign:
    "reachable E (st this) \<Longrightarrow> reachable E (st rhs) \<Longrightarrow>
     reachable E (move_assign this rhs st this)"
| move_assigned_from:
    "reachable E (st this) \<Longrightarrow> reachable E (st rhs) \<Longrightarrow>
     reachable E (move_assign this rhs st rhs)"
| by_swap: "reachable E u \<Longrightarrow> reachable E w \<Longrightarrow> Swap (u, w) = (u', w') \<Longrightarrow> reachable E u'"
| swapped: "reachable E u \<Longrightarrow> reachable E w \<Longrightarrow> Swap (u, w) = (u', w') \<Longrightarrow> reachable E w'"
| by_reserve:
    "reachable E v \<Longrightarrow> fits E n \<Longrightarrow> Reserve E n (v, tr) = Returned () (v', tr') \<Longrightarrow> reachable E v'"
| by_resize:
    "reachable E v \<Longrightarrow> fits E n \<Longrightarrow> Resize E n (v, tr) = Returned () (v', tr') \<Longrightarrow> reachable E v'"
| by_emplace_back:
    "reachable E v \<Longrightarrow> EmplaceBack E a (v, tr) = Returned i (v', tr') \<Longrightarrow> reachable E v'"
| by_push_back:
    "reachable E v \<Longrightarrow> PushBack E val (v, tr) = Returned i (v', tr') \<Longrightarrow> reachable E v'"
| by_push_back_rvalue:
    "reachable E v \<Longrightarrow> PushBack_rvalue E val (v, tr) = Returned i (v', tr') \<Longrightarrow> reachable E v'"
| by_pop_back: "reachable E v \<Longrightarrow> PopBack (v, tr) = Returned () (v', tr') \<Longrightarrow> reachable E v'"
| by_emplace:
    "reachable E v \<Longrightarrow> Emplace E p a (v, tr) = Returned i (v', tr') \<Longrightarrow> reachable E v'"
| by_insert:
    "reachable E v \<Longrightarrow> Insert E p val (v, tr) = Returned i (v', tr') \<Longrightarrow> reachable E v'"
| by_insert_rvalue:
    "reachable E v \<Longrightarrow> Insert_rvalue E p val (v, tr) = Returned i (v', tr') \<Longrightarrow> reachable E v'"
| by_erase: "reachable E v \<Longrightarrow> Erase E p (v, tr) = Returned i (v', tr') \<Longrightarrow> reachable E v'"

text \<open>
  The capacity that a full vector of \<open>n\<close> elements asks for when it grows, as long as
  the double of \<open>n\<close> is a value of \<^verbatim>\<open>size_t\<close>.
\<close>

definition grown :: "nat \<Rightarrow> nat" where
  "grown n = (if n = 0 then 1 else n * 2)"

text \<open>
  What doubling from nothing keeps true of a size and a capacity: both are 0, or the
  capacity is a power of two that the size reaches and more than half fills.
\<close>

definition doubled :: "nat \<Rightarrow> nat \<Rightarrow> bool" where
  "doubled n c = ((n = 0 \<and> c = 0) \<or> (\<exists>k. c = 2 ^ k \<and> n \<le> c \<and> c < 2 * n))"

text \<open>
  Three element types over the natural numbers for the concrete instances, each of four
  bytes. \<open>Obj\<close> can be copied and its move constructor may throw, so its elements migrate
  by copying; copying the value 7 throws and move-assigning the value 9 throws.
  \<open>NothrowObj\<close> has a move constructor that cannot throw, and none of its operations
  throws. Both have a default constructor that sets the value 0. \<open>Plain\<close> is a type like
  \<^verbatim>\<open>unsigned int\<close>: nothing throws, a moved-from object keeps its value,
  default-initialisation writes nothing (fresh storage reads as 0 here) and
  value-initialisation writes 0.
\<close>

definition Obj :: "nat env" where
  "Obj = \<lparr>nothrow_move_constructible = False, copy_constructible = True,
     copy_throws = (\<lambda>x. x = 7), move_throws = (\<lambda>x. False),
     copy_assign_throws = (\<lambda>x. False), move_assign_throws = (\<lambda>x. x = 9),
     moved_from = (\<lambda>x. 0), default_init = (\<lambda>r. Some 0), value_init = (\<lambda>r. Some 0),
     sizeof_T = 4, bad_alloc = (\<lambda>n. False)\<rparr>"

definition NothrowObj :: "nat env" where
  "NothrowObj = \<lparr>nothrow_move_constructible = True, copy_constructible = True,
     copy_throws = (\<lambda>x. False), move_throws = (\<lambda>x. False),
     copy_assign_throws = (\<lambda>x. False), move_assign_throws = (\<lambda>x. False),
     moved_from = (\<lambda>x. 0), default_init = (\<lambda>r. Some 0), value_init = (\<lambda>r. Some 0),
     sizeof_T = 4, bad_alloc = (\<lambda>n. False)\<rparr>"

definition Plain :: "nat env" where
  "Plain = \<lparr>nothrow_move_constructible = True, copy_constructible = True,
     copy_throws = (\<lambda>x. False), move_throws = (\<lambda>x. False),
     copy_assign_throws = (\<lambda>x. False), move_assign_throws = (\<lambda>x. False),
     moved_from = (\<lambda>x. x),
     default_init = (\<lambda>r. case r of None \<Rightarrow> Some 0 | Some x \<Rightarrow> Some x),
     value_init = (\<lambda>r. Some 0), sizeof_T = 4, bad_alloc = (\<lambda>n. False)\<rparr>"

text \<open>The \<open>n\<close> slots from \<open>first\<close> on lie in the block and hold live objects.\<close>

definition all_live :: "'a slots \<Rightarrow> nat \<Rightarrow> nat \<Rightarrow> bool" where
  "all_live buf first n =
     (first + n \<le> length buf \<and> list_all (\<lambda>s. live s \<noteq> None) (take n (drop first buf)))"

section \<open>The algorithms in closed form\<close>

lemma size_t_mul_code [code]: "size_t_mul a b = nat ((int a * int b) mod 2 ^ 64)"
  by (simp add: size_t_mul_def nat_mod_distrib nat_mult_distrib nat_power_eq)

text \<open>
  Each algorithm is characterised by the objects it reads and the number of them that are
  handled before the first element operation throws.
\<close>

lemma objects_Suc:
  "first < length buf \<Longrightarrow>
   objects buf first (Suc n) = the (live (buf ! first)) # objects buf (Suc first) n"
  by (simp add: objects_def Cons_nth_drop_Suc[symmetric])

lemma objects_0 [simp]: "objects buf first 0 = []"
  by (simp add: objects_def)

lemma length_objects: "first + n \<le> length buf \<Longrightarrow> length (objects buf first n) = n"
  by (simp add: objects_def)

lemma objects_update_below:
  "i < first \<Longrightarrow> objects (buf[i := s]) first n = objects buf first n"
  by (simp add: objects_def drop_update_cancel)

lemma all_live_0 [simp]: "all_live buf first 0 \<longleftrightarrow> first \<le> length buf"
  by (simp add: all_live_def)

lemma all_live_Suc:
  "all_live buf first (Suc n) \<longleftrightarrow>
     first < length buf \<and> live (buf ! first) \<noteq> None \<and> all_live buf (Suc first) n"
proof (cases "first < length buf")
  case True
  then have "take (Suc n) (drop first buf) = buf ! first # take n (drop (Suc first) buf)"
    by (simp add: Cons_nth_drop_Suc[symmetric])
  then show ?thesis using True by (auto simp: all_live_def)
next
  case False
  then show ?thesis by (simp add: all_live_def)
qed

lemma all_live_update_below:
  "i < first \<Longrightarrow> all_live (buf[i := s]) first n = all_live buf first n"
  by (simp add: all_live_def drop_update_cancel)

lemma all_live_length: "all_live buf first n \<Longrightarrow> first + n \<le> length buf"
  by (simp add: all_live_def)

lemma object_at_live:
  "all_live buf first (Suc n) \<Longrightarrow> object_at buf first = Some (the (live (buf ! first)))"
  by (auto simp: all_live_Suc object_at_def)

lemma destroy_n_eq:
  "all_live buf first n \<Longrightarrow>
   destroy_n buf first n tr =
     Some (take first buf @ map (\<lambda>x. Raw (Some x)) (objects buf first n) @ drop (first + n) buf,
           tr @ map Destroyed (objects buf first n))"
proof (induction n arbitrary: buf first tr)
  case 0
  then show ?case by simp
next
  case (Suc n)
  let ?x = "the (live (buf ! first))"
  let ?buf = "buf[first := Raw (Some ?x)]"
  have lt: "first < length buf" and rest: "all_live buf (Suc first) n"
    using Suc.prems by (simp_all add: all_live_Suc)
  have at: "destroy_at buf first tr = Some (?buf, tr @ [Destroyed ?x])"
    using object_at_live[OF Suc.prems] by (simp add: destroy_at_def)
  have "destroy_n buf first (Suc n) tr = destroy_n ?buf (Suc first) n (tr @ [Destroyed ?x])"
    by (simp add: at)
  also have "\<dots> = Some (take (Suc first) ?buf @ map (\<lambda>x. Raw (Some x)) (objects ?buf (Suc first) n)
                    @ drop (Suc first + n) ?buf,
                  (tr @ [Destroyed ?x]) @ map Destroyed (objects ?buf (Suc first) n))"
    using rest by (intro Suc.IH) (simp add: all_live_update_below)
  also have "take (Suc first) ?buf = take first buf @ [Raw (Some ?x)]"
    using lt by (simp add: take_Suc_conv_app_nth)
  also have "drop (Suc first + n) ?buf = drop (first + Suc n) buf"
    by simp
  also have "objects ?buf (Suc first) n = objects buf (Suc first) n"
    by (simp add: objects_update_below)
  finally show ?case
    using lt by (simp add: objects_Suc)
qed

lemma uninitialized_copy_from_eq:
  "all_live src first n \<Longrightarrow> cur + n \<le> length dst \<Longrightarrow>
   uninitialized_copy_from E src first n dst d_first cur tr =
     (let xs = objects src first n; k = length (takeWhile (\<lambda>x. \<not> copy_throws E x) xs) in
      if k = n then Returned () (take cur dst @ map Object xs @ drop (cur + n) dst, tr @ map Copied xs)
      else rolled_back (destroy_n (take cur dst @ map Object (take k xs) @ drop (cur + k) dst)
                     d_first (cur + k - d_first) (tr @ map Copied (take k xs))))"
proof (induction n arbitrary: first dst cur tr)
  case 0
  then show ?case by simp
next
  case (Suc n)
  let ?x = "the (live (src ! first))"
  have lt: "first < length src" and rest: "all_live src (Suc first) n"
    using Suc.prems by (simp_all add: all_live_Suc)
  have ltc: "cur < length dst" using Suc.prems by simp
  have at: "object_at src first = Some ?x" using Suc.prems(1) by (rule object_at_live)
  have obj: "objects src first (Suc n) = ?x # objects src (Suc first) n"
    using lt by (rule objects_Suc)
  show ?case
  proof (cases "copy_throws E ?x")
    case True
    then show ?thesis using ltc by (simp add: obj at)
  next
    case False
    let ?ys = "objects src (Suc first) n"
    have len: "length ?ys = n" using all_live_length[OF rest] by (simp add: length_objects)
    have IH: "uninitialized_copy_from E src (Suc first) n (dst[cur := Object ?x]) d_first (Suc cur)
                 (tr @ [Copied ?x]) =
          (let xs = ?ys; k = length (takeWhile (\<lambda>x. \<not> copy_throws E x) xs) in
           if k = n then Returned () (take (Suc cur) (dst[cur := Object ?x]) @ map Object xs
                                        @ drop (Suc cur + n) (dst[cur := Object ?x]),
                                      (tr @ [Copied ?x]) @ map Copied xs)
           else rolled_back (destroy_n (take (Suc cur) (dst[cur := Object ?x]) @ map Object (take k xs)
                                     @ drop (Suc cur + k) (dst[cur := Object ?x]))
                          d_first (Suc cur + k - d_first) ((tr @ [Copied ?x]) @ map Copied (take k xs))))"
      using Suc.prems rest by (intro Suc.IH) simp_all
    have k_le: "length (takeWhile (\<lambda>x. \<not> copy_throws E x) ?ys) \<le> n"
      using length_takeWhile_le[of "\<lambda>x. \<not> copy_throws E x" ?ys] len by simp
    show ?thesis
      using False ltc k_le
      by (simp add: obj at IH Let_def take_Suc_conv_app_nth len min_def)
  qed
qed

lemma objects_sandwich:
  "length pre = d \<Longrightarrow> objects (pre @ map Object ys @ post) d (length ys) = ys"
  by (simp add: objects_def comp_def)

lemma all_live_sandwich:
  "length pre = d \<Longrightarrow> all_live (pre @ map Object ys @ post) d (length ys)"
  by (simp add: all_live_def list_all_iff)

lemma destroy_n_rollback:
  assumes "d + k \<le> length dst" "length ys = k"
  shows "destroy_n (take d dst @ map Object ys @ drop (d + k) dst) d k tr =
           Some (take d dst @ map (\<lambda>x. Raw (Some x)) ys @ drop (d + k) dst, tr @ map Destroyed ys)"
proof -
  let ?B = "take d dst @ map Object ys @ drop (d + k) dst"
  have len: "length (take d dst) = d" using assms by simp
  have "all_live ?B d k" using all_live_sandwich[OF len, of ys] assms by simp
  then have "destroy_n ?B d k tr =
      Some (take d ?B @ map (\<lambda>x. Raw (Some x)) (objects ?B d k) @ drop (d + k) ?B,
            tr @ map Destroyed (objects ?B d k))"
    by (rule destroy_n_eq)
  moreover have "take d ?B = take d dst" using len by simp
  moreover have "drop (d + k) ?B = drop (d + k) dst" using assms len by simp
  moreover have "objects ?B d k = ys" using objects_sandwich[OF len, of ys] assms by simp
  ultimately show ?thesis by simp
qed

lemma uninitialized_copy_n_eq:
  assumes "all_live src first n" "d_first + n \<le> length dst"
  shows "uninitialized_copy_n E src first n dst d_first tr =
     (let xs = objects src first n; k = length (takeWhile (\<lambda>x. \<not> copy_throws E x) xs) in
      if k = n then Returned () (take d_first dst @ map Object xs @ drop (d_first + n) dst,
                                 tr @ map Copied xs)
      else Thrown (take d_first dst @ map (\<lambda>x. Raw (Some x)) (take k xs) @ drop (d_first + k) dst,
                   tr @ map Copied (take k xs) @ map Destroyed (take k xs)))"
proof -
  let ?xs = "objects src first n"
  let ?k = "length (takeWhile (\<lambda>x. \<not> copy_throws E x) ?xs)"
  have len: "length ?xs = n" using all_live_length[OF assms(1)] by (simp add: length_objects)
  have k_le: "?k \<le> n"
    using length_takeWhile_le[of "\<lambda>x. \<not> copy_throws E x" ?xs] len by simp
  have roll: "destroy_n (take d_first dst @ map Object (take ?k ?xs) @ drop (d_first + ?k) dst)
                 d_first ?k (tr @ map Copied (take ?k ?xs)) =
              Some (take d_first dst @ map (\<lambda>x. Raw (Some x)) (take ?k ?xs) @ drop (d_first + ?k) dst,
               (tr @ map Copied (take ?k ?xs)) @ map Destroyed (take ?k ?xs))"
    using assms k_le len by (intro destroy_n_rollback) simp_all
  show ?thesis
    unfolding uninitialized_copy_n_def
    using roll by (simp add: uninitialized_copy_from_eq[OF assms] Let_def rolled_back_def)
qed

lemma uninitialized_move_from_eq:
  "all_live src first n \<Longrightarrow> cur + n \<le> length dst \<Longrightarrow>
   uninitialized_move_from E src first n dst d_first cur tr =
     (let xs = objects src first n; k = length (takeWhile (\<lambda>x. \<not> move_fails E x) xs) in
      if k = n then
        Returned () (take first src @ map (\<lambda>x. Object (moved_from E x)) xs @ drop (first + n) src,
                     take cur dst @ map Object xs @ drop (cur + n) dst, tr @ map Moved xs)
      else
        (case destroy_n (take cur dst @ map Object (take k xs) @ drop (cur + k) dst)
                d_first (cur + k - d_first) (tr @ map Moved (take k xs)) of
           None \<Rightarrow> Undefined
         | Some (dst', tr') \<Rightarrow>
             Thrown (take first src @ map (\<lambda>x. Object (moved_from E x)) (take k xs)
                       @ drop (first + k) src, dst', tr')))"
proof (induction n arbitrary: first src dst cur tr)
  case 0
  then show ?case by simp
next
  case (Suc n)
  let ?x = "the (live (src ! first))"
  let ?src = "src[first := Object (moved_from E ?x)]"
  let ?dst = "dst[cur := Object ?x]"
  have lt: "first < length src" and rest: "all_live src (Suc first) n"
    using Suc.prems by (simp_all add: all_live_Suc)
  have ltc: "cur < length dst" using Suc.prems by simp
  have at: "object_at src first = Some ?x" using Suc.prems(1) by (rule object_at_live)
  have obj: "objects src first (Suc n) = ?x # objects src (Suc first) n"
    using lt by (rule objects_Suc)
  show ?case
  proof (cases "move_fails E ?x")
    case True
    then show ?thesis using ltc by (simp add: obj at split: option.splits)
  next
    case False
    let ?ys = "objects src (Suc first) n"
    have ys: "objects ?src (Suc first) n = ?ys" by (simp add: objects_update_below)
    have rest': "all_live ?src (Suc first) n" using rest by (simp add: all_live_update_below)
    have len: "length ?ys = n" using all_live_length[OF rest] by (simp add: length_objects)
    have k_le: "length (takeWhile (\<lambda>x. \<not> move_fails E x) ?ys) \<le> n"
      using length_takeWhile_le[of "\<lambda>x. \<not> move_fails E x" ?ys] len by simp
    have IH: "uninitialized_move_from E ?src (Suc first) n ?dst d_first (Suc cur) (tr @ [Moved ?x]) =
      (let xs = ?ys; k = length (takeWhile (\<lambda>x. \<not> move_fails E x) xs) in
       if k = n then
         Returned () (take (Suc first) ?src @ map (\<lambda>x. Object (moved_from E x)) xs
                        @ drop (Suc first + n) ?src,
                      take (Suc cur) ?dst @ map Object xs @ drop (Suc cur + n) ?dst,
                      (tr @ [Moved ?x]) @ map Moved xs)
       else
         (case destroy_n (take (Suc cur) ?dst @ map Object (take k xs) @ drop (Suc cur + k) ?dst)
                 d_first (Suc cur + k - d_first) ((tr @ [Moved ?x]) @ map Moved (take k xs)) of
            None \<Rightarrow> Undefined
          | Some (dst', tr') \<Rightarrow>
              Thrown (take (Suc first) ?src @ map (\<lambda>x. Object (moved_from E x)) (take k xs)
                        @ drop (Suc first + k) ?src, dst', tr')))"
      using Suc.prems rest' by (subst Suc.IH) (simp_all add: ys)
    show ?thesis
      using False lt ltc k_le
      by (simp add: obj at IH Let_def take_Suc_conv_app_nth len min_def cong: option.case_cong)
  qed
qed

lemma uninitialized_move_n_eq:
  assumes "all_live src first n" "d_first + n \<le> length dst"
  shows "uninitialized_move_n E src first n dst d_first tr =
     (let xs = objects src first n; k = length (takeWhile (\<lambda>x. \<not> move_fails E x) xs) in
      if k = n then
        Returned () (take first src @ map (\<lambda>x. Object (moved_from E x)) xs @ drop (first + n) src,
                     take d_first dst @ map Object xs @ drop (d_first + n) dst, tr @ map Moved xs)
      else
        Thrown (take first src @ map (\<lambda>x. Object (moved_from E x)) (take k xs) @ drop (first + k) src,
                take d_first dst @ map (\<lambda>x. Raw (Some x)) (take k xs) @ drop (d_first + k) dst,
                tr @ map Moved (take k xs) @ map Destroyed (take k xs)))"
proof -
  let ?xs = "objects src first n"
  let ?k = "length (takeWhile (\<lambda>x. \<not> move_fails E x) ?xs)"
  have len: "length ?xs = n" using all_live_length[OF assms(1)] by (simp add: length_objects)
  have k_le: "?k \<le> n"
    using length_takeWhile_le[of "\<lambda>x. \<not> move_fails E x" ?xs] len by simp
  have roll: "destroy_n (take d_first dst @ map Object (take ?k ?xs) @ drop (d_first + ?k) dst)
                 d_first ?k (tr @ map Moved (take ?k ?xs)) =
              Some (take d_first dst @ map (\<lambda>x. Raw (Some x)) (take ?k ?xs) @ drop (d_first + ?k) dst,
               (tr @ map Moved (take ?k ?xs)) @ map Destroyed (take ?k ?xs))"
    using assms k_le len by (intro destroy_n_rollback) simp_all
  show ?thesis
    unfolding uninitialized_move_n_def
    using roll by (simp add: uninitialized_move_from_eq[OF assms] Let_def)
qed

lemma uninitialized_construct_from_eq:
  "cur + n \<le> length buf \<Longrightarrow>
   uninitialized_construct_from init buf first cur n tr =
     (let rs = map bytes (take n (drop cur buf));
          k = length (takeWhile (\<lambda>r. init r \<noteq> None) rs);
          ds = map (\<lambda>r. the (init r)) (take k rs) in
      if k = n then Returned () (take cur buf @ map Object ds @ drop (cur + n) buf,
                                 tr @ map Constructed ds)
      else rolled_back (destroy_n (take cur buf @ map Object ds @ drop (cur + k) buf)
                          first (cur + k - first) (tr @ map Constructed ds)))"
proof (induction n arbitrary: buf cur tr)
  case 0
  then show ?case by simp
next
  case (Suc n)
  let ?r = "bytes (buf ! cur)"
  have ltc: "cur < length buf" using Suc.prems by simp
  have rs: "map bytes (take (Suc n) (drop cur buf)) = ?r # map bytes (take n (drop (Suc cur) buf))"
    using ltc by (simp add: Cons_nth_drop_Suc[symmetric])
  show ?case
  proof (cases "init ?r")
    case None
    then show ?thesis using ltc by (simp add: rs)
  next
    case (Some d)
    let ?buf = "buf[cur := Object d]"
    let ?rs = "map bytes (take n (drop (Suc cur) buf))"
    have len: "length ?rs = n" using Suc.prems by simp
    have k_le: "length (takeWhile (\<lambda>r. init r \<noteq> None) ?rs) \<le> n"
      using length_takeWhile_le[of "\<lambda>r. init r \<noteq> None" ?rs] len by simp
    have IH: "uninitialized_construct_from init ?buf first (Suc cur) n (tr @ [Constructed d]) =
      (let rs = ?rs;
           k = length (takeWhile (\<lambda>r. init r \<noteq> None) rs);
           ds = map (\<lambda>r. the (init r)) (take k rs) in
       if k = n then Returned () (take (Suc cur) ?buf @ map Object ds @ drop (Suc cur + n) ?buf,
                                  (tr @ [Constructed d]) @ map Constructed ds)
       else rolled_back (destroy_n (take (Suc cur) ?buf @ map Object ds @ drop (Suc cur + k) ?buf)
                           first (Suc cur + k - first) ((tr @ [Constructed d]) @ map Constructed ds)))"
      using Suc.prems by (subst Suc.IH) (simp_all add: drop_update_cancel)
    show ?thesis
      using Some ltc k_le
      by (simp add: rs IH Let_def take_Suc_conv_app_nth)
  qed
qed

lemma uninitialized_construct_n_eq:
  assumes "first + n \<le> length buf"
  shows "uninitialized_construct_from init buf first first n tr =
     (let rs = map bytes (take n (drop first buf));
          k = length (takeWhile (\<lambda>r. init r \<noteq> None) rs);
          ds = map (\<lambda>r. the (init r)) (take k rs) in
      if k = n then Returned () (take first buf @ map Object ds @ drop (first + n) buf,
                                 tr @ map Constructed ds)
      else Thrown (take first buf @ map (\<lambda>x. Raw (Some x)) ds @ drop (first + k) buf,
                   tr @ map Constructed ds @ map Destroyed ds))"
proof -
  let ?rs = "map bytes (take n (drop first buf))"
  let ?k = "length (takeWhile (\<lambda>r. init r \<noteq> None) ?rs)"
  let ?ds = "map (\<lambda>r. the (init r)) (take ?k ?rs)"
  have len: "length ?rs = n" using assms by simp
  have k_le: "?k \<le> n"
    using length_takeWhile_le[of "\<lambda>r. init r \<noteq> None" ?rs] len by simp
  have lds: "length ?ds = ?k" using k_le len by simp
  have roll: "destroy_n (take first buf @ map Object ?ds @ drop (first + ?k) buf)
                 first ?k (tr @ map Constructed ?ds) =
              Some (take first buf @ map (\<lambda>x. Raw (Some x)) ?ds @ drop (first + ?k) buf,
               (tr @ map Constructed ?ds) @ map Destroyed ?ds)"
    using assms k_le lds by (intro destroy_n_rollback) simp_all
  show ?thesis
    using roll by (simp add: uninitialized_construct_from_eq[OF assms] Let_def rolled_back_def)
qed

section \<open>Vectors that satisfy the invariant\<close>

lemma RawMemory_Swap_eq: "RawMemory_Swap (a, b) = (b, a)"
  by (simp add: RawMemory_Swap_def)

lemma Swap_eq: "Swap (this, other) = (other, this)"
  by (simp add: Swap_def RawMemory_Swap_eq)

lemma Swap_at_eq: "Swap_at this other st = (st(this := st other))(other := st this)"
  by (simp add: Swap_at_def Swap_eq)

lemma vector_with_simps [simp]:
  "m_size (vector_with xs rs) = length xs"
  "Capacity (vector_with xs rs) = length xs + length rs"
  "slots_of (vector_with xs rs) = map Object xs @ map Raw rs"
  "m_data (vector_with xs rs) =
     \<lparr>m_buffer = map Object xs @ map Raw rs, m_capacity = length xs + length rs\<rparr>"
  by (simp_all add: vector_with_def Capacity_def slots_of_def)

lemma vector_of_simps [simp]:
  "m_size (vector_of xs cap) = length xs"
  "Capacity (vector_of xs cap) = cap"
  "slots_of (vector_of xs cap) = map Object xs @ replicate (cap - length xs) (Raw None)"
  "m_data (vector_of xs cap) =
     \<lparr>m_buffer = map Object xs @ replicate (cap - length xs) (Raw None), m_capacity = cap\<rparr>"
  by (simp_all add: vector_of_def Capacity_def slots_of_def)

lemma vector_of_with:
  "length xs \<le> cap \<Longrightarrow> vector_of xs cap = vector_with xs (replicate (cap - length xs) None)"
  by (simp add: vector_of_def vector_with_def)

lemma vector_with_of: "vector_with xs (replicate n None) = vector_of xs (length xs + n)"
  by (simp add: vector_of_def vector_with_def)

lemma vector_with_Nil: "vector_with xs [] = vector_of xs (length xs)"
  by (simp add: vector_of_def vector_with_def)

lemma objects_map_Object [simp]: "objects (map Object xs @ rest) 0 (length xs) = xs"
  by (simp add: objects_def comp_def)

lemma objects_map_Object_all [simp]: "objects (map Object xs) 0 (length xs) = xs"
  by (simp add: objects_def comp_def)

lemma all_live_map_Object [simp]: "all_live (map Object xs @ rest) 0 (length xs)"
  by (simp add: all_live_def list_all_iff)

lemma all_live_map_Object_all [simp]: "all_live (map Object xs) 0 (length xs)"
  by (simp add: all_live_def list_all_iff)

lemma elems_vector_with [simp]: "elems (vector_with xs rs) = xs"
  by (simp add: elems_def)

lemma elems_vector_of [simp]: "elems (vector_of xs cap) = xs"
  by (simp add: elems_def)

lemma spare_vector_with [simp]: "spare (vector_with xs rs) = rs"
  by (simp add: spare_def comp_def)

lemma Vector_inv_vector_with: "Vector_inv (vector_with xs rs)"
  by (simp add: Vector_inv_def list_all_iff)

lemma Vector_inv_vector_of: "length xs \<le> cap \<Longrightarrow> Vector_inv (vector_of xs cap)"
  by (simp add: vector_of_with Vector_inv_vector_with)

lemma map_Object_the: "list_all (\<lambda>s. live s \<noteq> None) ss \<Longrightarrow> map Object (map (\<lambda>s. the (live s)) ss) = ss"
proof (induction ss)
  case Nil
  then show ?case by simp
next
  case (Cons s ss)
  then show ?case by (cases s) simp_all
qed

lemma map_Raw_bytes: "list_all (\<lambda>s. live s = None) ss \<Longrightarrow> map Raw (map bytes ss) = ss"
proof (induction ss)
  case Nil
  then show ?case by simp
next
  case (Cons s ss)
  then show ?case by (cases s) simp_all
qed

lemma Vector_inv_is_vector_with:
  assumes "Vector_inv v"
  shows "v = vector_with (elems v) (spare v)"
proof -
  let ?b = "slots_of v"
  have len: "length ?b = Capacity v" and le: "m_size v \<le> Capacity v"
    and live: "list_all (\<lambda>s. live s \<noteq> None) (take (m_size v) ?b)"
    and dead: "list_all (\<lambda>s. live s = None) (drop (m_size v) ?b)"
    using assms by (simp_all add: Vector_inv_def)
  have e: "elems v = map (\<lambda>s. the (live s)) (take (m_size v) ?b)" by (simp add: elems_def objects_def)
  have l: "length (elems v) = m_size v" using len le by (simp add: e)
  have ls: "length (spare v) = Capacity v - m_size v" using len by (simp add: spare_def)
  have "?b = take (m_size v) ?b @ drop (m_size v) ?b" by simp
  also have "take (m_size v) ?b = map Object (elems v)" using map_Object_the[OF live] by (simp add: e)
  also have "drop (m_size v) ?b = map Raw (spare v)"
    using map_Raw_bytes[OF dead] by (simp add: spare_def)
  finally have b: "?b = map Object (elems v) @ map Raw (spare v)" .
  have c: "m_capacity (m_data v) = length (elems v) + length (spare v)"
    using l ls le by (simp add: Capacity_def)
  show ?thesis
    using b c l by (simp add: vector_with_def slots_of_def)
qed

lemma Vector_inv_iff: "Vector_inv v \<longleftrightarrow> (\<exists>xs rs. v = vector_with xs rs)"
  using Vector_inv_is_vector_with Vector_inv_vector_with by metis

lemma length_elems: "Vector_inv v \<Longrightarrow> length (elems v) = m_size v"
  by (auto simp: Vector_inv_iff)

lemma alive_simps [simp]:
  "alive [] = []"
  "alive (Object x # ss) = x # alive ss"
  "alive (Raw r # ss) = alive ss"
  "alive (ss @ ts) = alive ss @ alive ts"
  "alive (replicate n (Raw r)) = []"
  "alive (map Object xs) = xs"
  "alive (map Raw rs) = []"
  "alive (map (\<lambda>x. Raw (f x)) xs) = []"
  "alive (map (Raw \<circ> f) xs) = []"
  "alive (map (Raw \<circ> f \<circ> g) xs) = []"
  by (simp_all add: alive_def List.map_filter_def comp_def filter_map)

lemma fits_mul: "fits E c \<Longrightarrow> size_t_mul c (sizeof_T E) = c * sizeof_T E"
  by (simp add: fits_def size_t_mul_def)

lemma RawMemory_new_allocates:
  "allocates E c \<Longrightarrow>
   RawMemory_new E c tr =
     Some (\<lparr>m_buffer = replicate c (Raw None), m_capacity = c\<rparr>,
           if c \<noteq> 0 then tr @ [Allocated c] else tr)"
  by (auto simp: RawMemory_new_def Allocate_def allocates_def fits_mul) (simp add: fits_def)

lemma RawMemory_new_bad_alloc:
  "fits E c \<Longrightarrow> c \<noteq> 0 \<Longrightarrow> bad_alloc E (c * sizeof_T E) \<Longrightarrow> RawMemory_new E c tr = None"
  by (simp add: RawMemory_new_def Allocate_def fits_mul)

lemma RawMemory_new_fits:
  "fits E c \<Longrightarrow>
   RawMemory_new E c tr =
     (if c \<noteq> 0 \<and> bad_alloc E (c * sizeof_T E) then None
      else Some (\<lparr>m_buffer = replicate c (Raw None), m_capacity = c\<rparr>,
                 if c \<noteq> 0 then tr @ [Allocated c] else tr))"
  by (auto simp: RawMemory_new_def Allocate_def fits_mul) (simp add: fits_def)

lemma grown_gt: "n < grown n"
  by (simp add: grown_def)

lemma grown_simps [simp]: "grown 0 = 1" "0 < n \<Longrightarrow> grown n = n * 2"
  by (simp_all add: grown_def)

lemma wrapped_block_small:
  assumes "\<not> (0 < s \<and> grown n * s < 2 ^ 64)"
  shows "size_t_mul (grown n) s div s \<le> n"
proof (cases "s = 0")
  case True
  then show ?thesis by simp
next
  case False
  then have s: "0 < s" by simp
  with assms have big: "(2::nat) ^ 64 \<le> grown n * s" by simp
  have m: "(grown n * s) mod 2 ^ 64 < (2::nat) ^ 64" by simp
  have "(grown n * s) mod 2 ^ 64 < Suc n * s"
  proof (cases "n = 0")
    case True
    then show ?thesis using big m by simp
  next
    case nz: False
    then have g: "grown n = n * 2" by simp
    show ?thesis
    proof (cases "(2::nat) ^ 64 \<le> n * s")
      case True
      then show ?thesis using m by simp
    next
      case False
      then have lt: "n * s < 2 ^ 64" by simp
      define X where "X = n * s"
      have e: "grown n * s = 2 * X" and sn: "Suc n * s = s + X" using g by (simp_all add: X_def)
      have "X < 2 ^ 64" "2 ^ 64 \<le> 2 * X" using lt big e by (simp_all add: X_def)
      then have "(2 * X) mod 2 ^ 64 = 2 * X - 2 ^ 64" by (simp add: mod_if)
      moreover have "X < C \<Longrightarrow> C \<le> 2 * X \<Longrightarrow> 2 * X - C < s + X" for C :: nat by linarith
      then have "2 * X - 2 ^ 64 < s + X" using \<open>X < 2 ^ 64\<close> \<open>2 ^ 64 \<le> 2 * X\<close> by blast
      ultimately have "(2 * X) mod 2 ^ 64 < s + X" by simp
      then show ?thesis by (simp only: e sn)
    qed
  qed
  then have "(grown n * s) mod 2 ^ 64 div s < Suc n"
    using s by (simp add: div_less_iff_less_mult)
  then show ?thesis by (simp add: size_t_mul_def)
qed

lemma size_t_double: "fits E (n * 2) \<Longrightarrow> size_t_mul n 2 = n * 2"
proof -
  assume "fits E (n * 2)"
  then have s: "0 < sizeof_T E" and lt: "n * 2 * sizeof_T E < 2 ^ 64" by (simp_all add: fits_def)
  have "n * 2 \<le> n * 2 * sizeof_T E" using s by simp
  then have "n * 2 < 2 ^ 64" using lt by (rule le_less_trans)
  then show ?thesis by (simp add: size_t_mul_def)
qed

lemma size_t_mul_double: "size_t_mul (size_t_mul n 2) s = size_t_mul (n * 2) s"
  by (simp add: size_t_mul_def mod_mult_left_eq)

lemma RawMemory_new_wrapped:
  assumes "\<not> fits E (grown n)"
    and "RawMemory_new E (if n = 0 then 1 else size_t_mul n 2) tr = Some (d, tr1)"
  shows "length (m_buffer d) \<le> n"
proof (cases "n = 0")
  case True
  then show ?thesis
    using assms wrapped_block_small[of "sizeof_T E" n]
    by (auto simp: RawMemory_new_def Allocate_def fits_def split: if_splits)
next
  case False
  then have g: "grown n = n * 2" by simp
  have "size_t_mul (n * 2) (sizeof_T E) div sizeof_T E \<le> n"
    using assms(1) wrapped_block_small[of "sizeof_T E" n] by (simp add: fits_def g)
  then show ?thesis
    using assms(2) False
    by (auto simp: RawMemory_new_def Allocate_def size_t_mul_double split: if_splits)
qed

lemma RawMemory_new_doubled:
  assumes "fits E (grown n)"
  shows "RawMemory_new E (if n = 0 then 1 else size_t_mul n 2) tr = RawMemory_new E (grown n) tr"
proof (cases "n = 0")
  case True
  then show ?thesis by simp
next
  case False
  then have "fits E (n * 2)" using assms by simp
  from size_t_double[OF this] show ?thesis using False by simp
qed

lemma replicate_update:
  "n < c \<Longrightarrow> (replicate c r)[n := s] = replicate n r @ s # replicate (c - Suc n) r"
  by (simp add: upd_conv_take_nth_drop min_def)

lemma grown_unfold: "(if n = 0 then 1 else n * 2) = grown n"
  by (simp add: grown_def)

lemma EmplaceBack_room:
  "EmplaceBack E (Some x) (vector_with xs (r # rs), tr) =
     Returned (length xs) (vector_with (xs @ [x]) rs, tr @ [Constructed x])"
  by (simp add: EmplaceBack_def with_slots_def vector_with_def slots_of_def Capacity_def
        list_update_append)

lemma EmplaceBack_grow_copy:
  assumes nm: "\<not> migrate_by_move E" and al: "allocates E (grown (length xs))"
  shows "EmplaceBack E (Some x) (vector_with xs [], tr) =
     (let k = length (takeWhile (\<lambda>y. \<not> copy_throws E y) xs); c = grown (length xs) in
      if k = length xs then
        Returned (length xs)
          (vector_of (xs @ [x]) c,
           tr @ [Allocated c, Constructed x] @ map Copied xs @ map Destroyed xs
              @ (if xs = [] then [] else [Released (length xs) []]))
      else
        Thrown (vector_with xs [],
                tr @ [Allocated c, Constructed x] @ map Copied (take k xs)
                   @ map Destroyed (take k xs) @ [Released c [x]]))"
proof (cases "xs = []")
  case True
  have al1: "allocates E (Suc 0)" using al True by simp
  show ?thesis
    using nm True
    by (simp add: EmplaceBack_def RawMemory_new_allocates[OF al1] uninitialized_copy_n_def
          RawMemory_Swap_eq Deallocate_def vector_of_def vector_with_def Capacity_def slots_of_def)
next
  case False
  then have pos: "0 < length xs" by simp
  have al2: "allocates E (length xs * 2)" using al pos by simp
  then have d2: "size_t_mul (length xs) 2 = length xs * 2"
    using size_t_double[of E "length xs"] by (simp add: allocates_def)
  show ?thesis
    using nm False pos length_takeWhile_le[of "\<lambda>y. \<not> copy_throws E y" xs]
    apply (simp add: EmplaceBack_def d2 RawMemory_new_allocates[OF al2] Let_def)
    apply (simp add: uninitialized_copy_n_eq destroy_n_eq replicate_update RawMemory_Swap_eq
             Let_def Deallocate_def vector_of_def vector_with_def Capacity_def slots_of_def)
    done
qed

lemma EmplaceBack_grow_move:
  assumes mv: "migrate_by_move E" and al: "allocates E (grown (length xs))"
  shows "EmplaceBack E (Some x) (vector_with xs [], tr) =
     (let k = length (takeWhile (\<lambda>y. \<not> move_fails E y) xs); c = grown (length xs) in
      if k = length xs then
        Returned (length xs)
          (vector_of (xs @ [x]) c,
           tr @ [Allocated c, Constructed x] @ map Moved xs @ map Destroyed (map (moved_from E) xs)
              @ (if xs = [] then [] else [Released (length xs) []]))
      else
        Thrown (vector_with (map (moved_from E) (take k xs) @ drop k xs) [],
                tr @ [Allocated c, Constructed x] @ map Moved (take k xs)
                   @ map Destroyed (take k xs) @ [Released c [x]]))"
proof (cases "xs = []")
  case True
  have al1: "allocates E (Suc 0)" using al True by simp
  show ?thesis
    using mv True
    by (simp add: EmplaceBack_def RawMemory_new_allocates[OF al1] uninitialized_move_n_def
          RawMemory_Swap_eq Deallocate_def vector_of_def vector_with_def Capacity_def slots_of_def
          with_slots_def)
next
  case False
  then have pos: "0 < length xs" by simp
  have al2: "allocates E (length xs * 2)" using al pos by simp
  then have d2: "size_t_mul (length xs) 2 = length xs * 2"
    using size_t_double[of E "length xs"] by (simp add: allocates_def)
  show ?thesis
    using mv False pos length_takeWhile_le[of "\<lambda>y. \<not> move_fails E y" xs]
    apply (simp add: EmplaceBack_def d2 RawMemory_new_allocates[OF al2] Let_def)
    apply (simp add: uninitialized_move_n_eq destroy_n_eq replicate_update RawMemory_Swap_eq
             Let_def Deallocate_def vector_of_def vector_with_def Capacity_def slots_of_def
             with_slots_def objects_def comp_def drop_map all_live_def list_all_iff)
    done
qed

lemma EmplaceBack_None: "EmplaceBack E None s \<noteq> Returned i s'"
  by (cases s) (auto simp: EmplaceBack_def split: option.splits)

lemma EmplaceBack_ctor_throws:
  assumes "rs = [] \<longrightarrow> fits E (grown (length xs))"
  shows "EmplaceBack E None (vector_with xs rs, tr) =
     Thrown (vector_with xs rs,
             if rs = [] \<and> \<not> bad_alloc E (grown (length xs) * sizeof_T E)
             then tr @ [Allocated (grown (length xs)), Released (grown (length xs)) []] else tr)"
proof (cases rs)
  case Nil
  then have f: "fits E (grown (length xs))" using assms by simp
  show ?thesis
  proof (cases "xs = []")
    case True
    then have f1: "fits E (Suc 0)" using f by simp
    show ?thesis
      using True Nil
      by (simp add: EmplaceBack_def Capacity_def RawMemory_new_fits[OF f1] Deallocate_def)
  next
    case False
    then have f2: "fits E (length xs * 2)" using f by simp
    have d2: "size_t_mul (length xs) 2 = length xs * 2" using f2 by (rule size_t_double)
    show ?thesis
      using False Nil
      by (simp add: EmplaceBack_def Capacity_def d2 RawMemory_new_fits[OF f2] Deallocate_def)
  qed
next
  case (Cons r rs')
  then show ?thesis by (simp add: EmplaceBack_def Capacity_def slots_of_def)
qed

lemma EmplaceBack_not_allocates:
  assumes "\<not> allocates E (grown (length xs))"
  shows "EmplaceBack E a (vector_with xs [], tr) \<noteq> Returned i s'"
proof (cases "RawMemory_new E (if length xs = 0 then 1 else size_t_mul (length xs) 2) tr")
  case None
  then show ?thesis by (cases "xs = []") (simp_all add: EmplaceBack_def)
next
  case (Some p)
  obtain d tr1 where p: "p = (d, tr1)" by (cases p)
  have "\<not> fits E (grown (length xs))"
  proof
    assume f: "fits E (grown (length xs))"
    with assms have b: "bad_alloc E (grown (length xs) * sizeof_T E)" by (simp add: allocates_def)
    have "grown (length xs) \<noteq> 0" by (simp add: grown_def)
    from RawMemory_new_bad_alloc[OF f this b, of tr]
    have "RawMemory_new E (grown (length xs)) tr = None" .
    with Some show False unfolding RawMemory_new_doubled[OF f] by simp
  qed
  from RawMemory_new_wrapped[OF this Some[unfolded p]] have "length (m_buffer d) \<le> length xs" .
  then show ?thesis using Some p by (cases "xs = []") (simp_all add: EmplaceBack_def)
qed

lemma EmplaceBack_returned:
  assumes ret: "EmplaceBack E a (vector_with xs rs, tr) = Returned i (v', tr')"
  shows "\<exists>x. a = Some x \<and> i = length xs
             \<and> v' = (if rs = [] then vector_of (xs @ [x]) (grown (length xs))
                     else vector_with (xs @ [x]) (tl rs))"
proof (cases a)
  case None
  then show ?thesis using ret EmplaceBack_None[of E "(vector_with xs rs, tr)"] by simp
next
  case (Some x)
  show ?thesis
  proof (cases rs)
    case (Cons r rs')
    then show ?thesis using ret Some by (simp add: EmplaceBack_room)
  next
    case Nil
    show ?thesis
    proof (cases "allocates E (grown (length xs))")
      case False
      then show ?thesis using ret Nil EmplaceBack_not_allocates[of E xs a tr] by simp
    next
      case al: True
      show ?thesis
      proof (cases "migrate_by_move E")
        case True
        then show ?thesis
          using ret Some Nil EmplaceBack_grow_move[OF True al, of x tr]
          by (cases "xs = []") (auto simp: Let_def split: if_splits)
      next
        case nm: False
        then show ?thesis
          using ret Some Nil EmplaceBack_grow_copy[OF nm al, of x tr]
          by (cases "xs = []") (auto simp: Let_def split: if_splits)
      qed
    qed
  qed
qed

lemma EmplaceBack_returned_of:
  assumes le: "length xs \<le> cap"
    and ret: "EmplaceBack E a (vector_of xs cap, tr) = Returned i (v', tr')"
  shows "\<exists>x. a = Some x \<and> i = length xs
             \<and> v' = vector_of (xs @ [x]) (if length xs = cap then grown cap else cap)"
proof -
  from ret have "EmplaceBack E a (vector_with xs (replicate (cap - length xs) None), tr) =
      Returned i (v', tr')"
    using le by (simp add: vector_of_with)
  from EmplaceBack_returned[OF this] obtain x where
    x: "a = Some x" "i = length xs"
       "v' = (if replicate (cap - length xs) (None :: 'a option) = []
              then vector_of (xs @ [x]) (grown (length xs))
              else vector_with (xs @ [x]) (tl (replicate (cap - length xs) None)))"
    by blast
  have "v' = vector_of (xs @ [x]) (if length xs = cap then grown cap else cap)"
  proof (cases "length xs = cap")
    case True
    then show ?thesis using x(3) by simp
  next
    case False
    then obtain m where m: "cap - length xs = Suc m" using le by (cases "cap - length xs") auto
    then have "cap = length (xs @ [x]) + m" by simp
    then show ?thesis using x(3) False m by (simp add: vector_with_of)
  qed
  with x show ?thesis by blast
qed

lemma doubled_step: "doubled n c \<Longrightarrow> n \<le> c \<Longrightarrow> doubled (Suc n) (if n = c then grown c else c)"
proof (cases "n = 0")
  case True
  assume "doubled n c"
  with True have "c = 0" by (auto simp: doubled_def)
  with True show ?thesis by (auto simp: doubled_def intro: exI[of _ 0])
next
  case False
  assume d: "doubled n c" and le: "n \<le> c"
  from d False obtain k where k: "c = 2 ^ k" "n \<le> c" "c < 2 * n" by (auto simp: doubled_def)
  show ?thesis
  proof (cases "n = c")
    case True
    then have "grown c = 2 ^ Suc k" using k False by simp
    then show ?thesis using True k by (auto simp: doubled_def intro!: exI[of _ "Suc k"])
  next
    case False
    then show ?thesis using k le by (auto simp: doubled_def intro!: exI[of _ k])
  qed
qed

lemma append_all_returned:
  assumes "length xs \<le> cap" "doubled (length xs) cap"
    and "append_all E args (vector_of xs cap, tr) = Returned () (v, tr')"
  shows "\<exists>ys cap'. args = map Some ys \<and> v = vector_of (xs @ ys) cap'
           \<and> length (xs @ ys) \<le> cap' \<and> doubled (length (xs @ ys)) cap'"
  using assms
proof (induction args arbitrary: xs cap tr)
  case Nil
  then show ?case by auto
next
  case (Cons a args)
  from Cons.prems(3) obtain i v1 tr1 where
    step: "EmplaceBack E a (vector_of xs cap, tr) = Returned i (v1, tr1)"
    and rest: "append_all E args (v1, tr1) = Returned () (v, tr')"
    by (auto split: outcome.splits)
  from EmplaceBack_returned_of[OF Cons.prems(1) step] obtain x where
    x: "a = Some x" "v1 = vector_of (xs @ [x]) (if length xs = cap then grown cap else cap)"
    by blast
  let ?cap1 = "if length xs = cap then grown cap else cap"
  have le1: "length (xs @ [x]) \<le> ?cap1"
    using Cons.prems(1) grown_gt[of cap] by auto
  have d1: "doubled (length (xs @ [x])) ?cap1"
    using doubled_step[OF Cons.prems(2) Cons.prems(1)] by simp
  from Cons.IH[OF le1 d1] rest x obtain ys cap' where
    "args = map Some ys" "v = vector_of ((xs @ [x]) @ ys) cap'"
    "length ((xs @ [x]) @ ys) \<le> cap'" "doubled (length ((xs @ [x]) @ ys)) cap'"
    by blast
  then show ?case using x by (intro exI[of _ "x # ys"] exI[of _ cap']) simp
qed

lemma doubled_least:
  assumes "doubled n c" "0 < n"
  shows "\<exists>k. c = 2 ^ k \<and> n \<le> 2 ^ k \<and> (\<forall>j. n \<le> 2 ^ j \<longrightarrow> k \<le> j)"
proof -
  from assms obtain k where k: "c = 2 ^ k" "n \<le> c" "c < 2 * n" by (auto simp: doubled_def)
  have "k \<le> j" if "n \<le> 2 ^ j" for j
  proof -
    have "(2::nat) ^ k < 2 * 2 ^ j" using k that by simp
    then have "(2::nat) ^ k < 2 ^ Suc j" by simp
    then have "k < Suc j" by (simp only: power_strict_increasing_iff[of 2] one_less_numeral_iff semiring_norm)
    then show ?thesis by simp
  qed
  with k show ?thesis by blast
qed

lemma takeWhile_all: "(\<forall>x. P x) \<Longrightarrow> takeWhile P xs = xs"
  by (simp add: takeWhile_eq_all_conv)

lemma EmplaceBack_total:
  assumes "length xs \<le> cap" "length xs = cap \<longrightarrow> allocates E (grown cap)"
    "\<forall>x. \<not> copy_throws E x \<and> \<not> move_fails E x"
  shows "\<exists>tr'. EmplaceBack E (Some x) (vector_of xs cap, tr) =
           Returned (length xs) (vector_of (xs @ [x]) (if length xs = cap then grown cap else cap), tr')"
proof (cases "length xs = cap")
  case False
  then obtain m where m: "cap - length xs = Suc m" using assms(1) by (cases "cap - length xs") auto
  then have c: "cap = length (xs @ [x]) + m" by simp
  have v: "vector_of xs cap = vector_with xs (None # replicate m None)"
    using assms(1) m by (simp add: vector_of_with)
  have w: "vector_with (xs @ [x]) (replicate m None) = vector_of (xs @ [x]) cap"
    by (simp only: vector_with_of c)
  have "EmplaceBack E (Some x) (vector_of xs cap, tr) =
          Returned (length xs) (vector_of (xs @ [x]) cap, tr @ [Constructed x])"
    by (simp only: v EmplaceBack_room w)
  then show ?thesis using False by auto
next
  case True
  have al: "allocates E (grown (length xs))" using assms True by simp
  have v: "vector_of xs cap = vector_with xs []" using True by (simp add: vector_with_Nil)
  show ?thesis
  proof (cases "migrate_by_move E")
    case mv: True
    show ?thesis
      using EmplaceBack_grow_move[OF mv al, of x tr] assms True
      by (simp add: v Let_def takeWhile_all)
  next
    case nm: False
    show ?thesis
      using EmplaceBack_grow_copy[OF nm al, of x tr] assms True
      by (simp add: v Let_def takeWhile_all)
  qed
qed

lemma append_all_total:
  assumes "\<forall>x. \<not> copy_throws E x \<and> \<not> move_fails E x"
  shows "length xs \<le> cap \<Longrightarrow> \<forall>n \<le> 2 * (length xs + length ys). allocates E n \<Longrightarrow>
         (length xs < cap \<longrightarrow> cap \<le> 2 * length xs) \<Longrightarrow>
         \<exists>v tr'. append_all E (map Some ys) (vector_of xs cap, tr) = Returned () (v, tr')"
proof (induction ys arbitrary: xs cap tr)
  case Nil
  then show ?case by simp
next
  case (Cons y ys)
  let ?cap1 = "if length xs = cap then grown cap else cap"
  have g: "grown cap \<le> 2 * (length xs + length (y # ys))" if "length xs = cap"
    using that by (simp add: grown_def)
  then have al: "length xs = cap \<longrightarrow> allocates E (grown cap)" using Cons.prems(2) by blast
  from EmplaceBack_total[OF Cons.prems(1) al assms, of y tr] obtain tr1 where
    st: "EmplaceBack E (Some y) (vector_of xs cap, tr) =
           Returned (length xs) (vector_of (xs @ [y]) ?cap1, tr1)"
    by blast
  have le1: "length (xs @ [y]) \<le> ?cap1"
    using Cons.prems(1) grown_gt[of cap] by auto
  have al1: "\<forall>n \<le> 2 * (length (xs @ [y]) + length ys). allocates E n"
    using Cons.prems(2) by simp
  have sm: "length (xs @ [y]) < ?cap1 \<longrightarrow> ?cap1 \<le> 2 * length (xs @ [y])"
    using Cons.prems(1,3) by (auto simp: grown_def)
  from Cons.IH[OF le1 al1 sm, of tr1] show ?case by (simp add: st)
qed

lemma Vector_default_eq: "Vector_default = vector_of [] 0"
  by (simp add: Vector_default_def vector_of_def)

section \<open>Appending\<close>

text \<open>
  C3. When the appends of \<open>N\<close> elements to a default-constructed vector all return, the
  size is \<open>N\<close>, the elements are the appended ones in the order of the appends, and the
  capacity is 0 for \<open>N = 0\<close> and otherwise the least power of two that is at least \<open>N\<close>,
  which is the least value reached by doubling from 1. They all return when no copy or
  move of an element throws and every allocation of up to \<open>2 * N\<close> elements succeeds.
\<close>

theorem append_from_empty:
  "(append_all E args (Vector_default, tr) = Returned () (v, tr') \<longrightarrow>
      m_size v = length args \<and> map Some (elems v) = args
      \<and> (args = [] \<longrightarrow> Capacity v = 0)
      \<and> (args \<noteq> [] \<longrightarrow>
           (\<exists>k. Capacity v = 2 ^ k \<and> length args \<le> 2 ^ k \<and> (\<forall>j. length args \<le> 2 ^ j \<longrightarrow> k \<le> j))))
   \<and> ((\<forall>n \<le> 2 * length xs. allocates E n) \<and> (\<forall>x. \<not> copy_throws E x \<and> \<not> move_fails E x) \<longrightarrow>
        (\<exists>w tr''. append_all E (map Some xs) (Vector_default, tr) = Returned () (w, tr'')))"
proof (intro conjI impI)
  assume ret: "append_all E args (Vector_default, tr) = Returned () (v, tr')"
  have d0: "doubled (length ([]::'a list)) 0" by (simp add: doubled_def)
  from append_all_returned[OF _ d0, of E args tr v tr'] ret obtain ys cap' where
    ys: "args = map Some ys" "v = vector_of ys cap'" "length ys \<le> cap'" "doubled (length ys) cap'"
    by (auto simp: Vector_default_eq)
  show "m_size v = length args" using ys by simp
  show "map Some (elems v) = args" using ys by simp
  show "Capacity v = 0" if "args = []" using ys that by (simp add: doubled_def)
  show "\<exists>k. Capacity v = 2 ^ k \<and> length args \<le> 2 ^ k \<and> (\<forall>j. length args \<le> 2 ^ j \<longrightarrow> k \<le> j)"
    if "args \<noteq> []"
    using doubled_least[OF ys(4)] ys that by simp
next
  assume a: "(\<forall>n \<le> 2 * length xs. allocates E n) \<and> (\<forall>x. \<not> copy_throws E x \<and> \<not> move_fails E x)"
  then have "\<forall>n \<le> 2 * (length ([]::'a list) + length xs). allocates E n" by simp
  from append_all_total[OF _ _ this, of 0 tr] a
  show "\<exists>w tr''. append_all E (map Some xs) (Vector_default, tr) = Returned () (w, tr'')"
    by (simp add: Vector_default_eq)
qed

theorem append_from_empty_witness:
  "(\<exists>tr'. append_all Obj [Some 1, Some 2, Some 3] (Vector_default, []) =
            Returned () (vector_of [1, 2, 3] 4, tr'))
   \<and> m_size (vector_of [1, 2, 3 :: nat] 4) = 3
   \<and> map Some (elems (vector_of [1, 2, 3 :: nat] 4)) = [Some 1, Some 2, Some 3]
   \<and> (\<exists>k. Capacity (vector_of [1, 2, 3 :: nat] 4) = 2 ^ k \<and> (3::nat) \<le> 2 ^ k
            \<and> (\<forall>j. (3::nat) \<le> 2 ^ j \<longrightarrow> k \<le> j))
   \<and> allocates NothrowObj 6
   \<and> (\<exists>w tr''. append_all NothrowObj (map Some [1, 2, 3]) (Vector_default, []) = Returned () (w, tr''))"
proof -
  have ev: "append_all Obj [Some 1, Some 2, Some 3] (Vector_default, []) =
      Returned () (vector_of [1, 2, 3] 4,
        [Allocated 1, Constructed 1, Allocated 2, Constructed 2, Copied 1, Destroyed 1,
         Released 1 [], Allocated 4, Constructed 3, Copied 1, Copied 2, Destroyed 1,
         Destroyed 2, Released 2 []])"
    by code_simp
  have al: "\<forall>n \<le> 2 * length [1, 2, 3 :: nat]. allocates NothrowObj n"
    by (simp add: NothrowObj_def allocates_def fits_def)
  have benign: "(\<forall>n \<le> 2 * length [1, 2, 3 :: nat]. allocates NothrowObj n)
      \<and> (\<forall>x. \<not> copy_throws NothrowObj x \<and> \<not> move_fails NothrowObj x)"
    using al by (simp add: NothrowObj_def move_fails_def)
  have len: "length [Some 1, Some 2, Some (3::nat)] = 3" by simp
  have ne: "[Some 1, Some 2, Some (3::nat)] \<noteq> []" by simp
  note A = append_from_empty[of Obj "[Some 1, Some 2, Some 3]" "[]", THEN conjunct1,
      rule_format, OF ev, unfolded len]
  note B = append_from_empty[of NothrowObj _ "[]" _ _ "[1, 2, 3]", THEN conjunct2,
      rule_format, OF benign]
  from A ne have k: "\<exists>k. Capacity (vector_of [1, 2, 3 :: nat] 4) = 2 ^ k \<and> (3::nat) \<le> 2 ^ k
            \<and> (\<forall>j. (3::nat) \<le> 2 ^ j \<longrightarrow> k \<le> j)"
    by blast
  from A have s: "m_size (vector_of [1, 2, 3 :: nat] 4) = 3"
    and m: "map Some (elems (vector_of [1, 2, 3 :: nat] 4)) = [Some 1, Some 2, Some 3]"
    by blast+
  have a6: "allocates NothrowObj 6" by (simp add: NothrowObj_def allocates_def fits_def)
  from ev k s m a6 B show ?thesis by blast
qed

text \<open>
  C1 says that when the migration by copying fails after the new element was constructed,
  the new element is destroyed before the new storage is released. The code has no handler
  there. A vector holds the one element 7, whose copy throws, in a buffer of one slot;
  appending 5 allocates two slots and constructs 5 in the second, the copy of 7 throws, and
  the two slots are released while 5 is still alive in them: no destructor runs for it.
  The vector itself is as before the call.
\<close>

theorem EmplaceBack_releases_new_element_alive:
  "EmplaceBack Obj (Some 7) (Vector_default, []) =
     Returned 0 (vector_of [7] 1, [Allocated 1, Constructed 7])
   \<and> EmplaceBack Obj (Some 5) (vector_of [7] 1, [Allocated 1, Constructed 7]) =
     Thrown (vector_of [7] 1,
             [Allocated 1, Constructed 7, Allocated 2, Constructed 5, Released 2 [5]])"
  by code_simp

section \<open>Reserve and Resize\<close>

lemma Reserve_enough: "n \<le> Capacity v \<Longrightarrow> Reserve E n (v, tr) = Returned () (v, tr)"
  by (simp add: Reserve_def)

lemma Reserve_grow_copy:
  assumes nm: "\<not> migrate_by_move E" and al: "allocates E n"
    and gt: "length xs + length rs < n"
  shows "Reserve E n (vector_with xs rs, tr) =
     (let k = length (takeWhile (\<lambda>y. \<not> copy_throws E y) xs) in
      if k = length xs then
        Returned ()
          (vector_of xs n,
           tr @ [Allocated n] @ map Copied xs @ map Destroyed xs
              @ (if length xs + length rs = 0 then [] else [Released (length xs + length rs) []]))
      else
        Thrown (vector_with xs rs,
                tr @ [Allocated n] @ map Copied (take k xs) @ map Destroyed (take k xs)
                   @ [Released n []]))"
  using nm gt length_takeWhile_le[of "\<lambda>y. \<not> copy_throws E y" xs]
  apply (simp add: Reserve_def RawMemory_new_allocates[OF al] Let_def)
  apply (simp add: uninitialized_copy_n_eq destroy_n_eq RawMemory_Swap_eq
             Let_def Deallocate_def vector_of_def vector_with_def Capacity_def slots_of_def
             with_slots_def)
  done

lemma Reserve_grow_move:
  assumes mv: "migrate_by_move E" and al: "allocates E n"
    and gt: "length xs + length rs < n"
  shows "Reserve E n (vector_with xs rs, tr) =
     (let k = length (takeWhile (\<lambda>y. \<not> move_fails E y) xs) in
      if k = length xs then
        Returned ()
          (vector_of xs n,
           tr @ [Allocated n] @ map Moved xs @ map Destroyed (map (moved_from E) xs)
              @ (if length xs + length rs = 0 then [] else [Released (length xs + length rs) []]))
      else
        Thrown (vector_with (map (moved_from E) (take k xs) @ drop k xs) rs,
                tr @ [Allocated n] @ map Moved (take k xs) @ map Destroyed (take k xs)
                   @ [Released n []]))"
  using mv gt length_takeWhile_le[of "\<lambda>y. \<not> move_fails E y" xs]
  apply (simp add: Reserve_def RawMemory_new_allocates[OF al] Let_def)
  apply (simp add: uninitialized_move_n_eq destroy_n_eq RawMemory_Swap_eq
             Let_def Deallocate_def vector_of_def vector_with_def Capacity_def slots_of_def
             with_slots_def objects_def comp_def drop_map all_live_def list_all_iff)
  done




lemma Resize_same: "n = m_size v \<Longrightarrow> Resize E n (v, tr) = Returned () (v, tr)"
  by (simp add: Resize_def)

lemma Resize_shrink:
  assumes "n < length xs"
  shows "Resize E n (vector_with xs rs, tr) =
           Returned () (vector_with (take n xs) (map Some (drop n xs) @ rs),
                        tr @ map Destroyed (drop n xs))"
proof -
  let ?buf = "map Object xs @ map Raw rs"
  have l: "all_live ?buf n (length xs - n)"
    using assms by (simp add: all_live_def list_all_iff take_map drop_map)
  have o: "objects ?buf n (length xs - n) = drop n xs"
    using assms by (simp add: objects_def take_map drop_map comp_def)
  have "destroy_n ?buf n (length xs - n) tr =
          Some (map Object (take n xs) @ map Raw (map Some (drop n xs) @ rs),
                tr @ map Destroyed (drop n xs))"
    using assms by (simp add: destroy_n_eq[OF l] o take_map comp_def)
  then show ?thesis
    using assms
    by (simp add: Resize_def) (simp add: vector_with_def with_slots_def slots_of_def min_def)
qed

lemma Resize_grow_within:
  assumes "n \<le> length xs + length rs" "length xs < n"
  shows "Resize E n (vector_with xs rs, tr) =
     (let rs0 = take (n - length xs) rs;
          k = length (takeWhile (\<lambda>r. default_init E r \<noteq> None) rs0);
          ds = map (\<lambda>r. the (default_init E r)) (take k rs0) in
      if k = n - length xs
      then Returned () (vector_with (xs @ ds) (drop (n - length xs) rs), tr @ map Constructed ds)
      else Thrown (vector_with xs (map Some ds @ drop k rs),
                   tr @ map Constructed ds @ map Destroyed ds))"
proof -
  let ?buf = "map Object xs @ map Raw rs"
  let ?m = "n - length xs"
  let ?rs0 = "take ?m rs"
  let ?k = "length (takeWhile (\<lambda>r. default_init E r \<noteq> None) ?rs0)"
  let ?ds = "map (\<lambda>r. the (default_init E r)) (take ?k ?rs0)"
  have m: "?m \<le> length rs" using assms by simp
  have k: "?k \<le> ?m"
    using length_takeWhile_le[of "\<lambda>r. default_init E r \<noteq> None" ?rs0] m by simp
  have lds: "length ?ds = ?k" using k m by simp
  have bt: "map bytes (take ?m (drop (length xs) ?buf)) = ?rs0"
    by (simp add: take_map comp_def)
  have t: "take (length xs) ?buf = map Object xs" by simp
  have d: "drop (length xs + j) ?buf = map Raw (drop j rs)" for j by (simp add: drop_map)
  have pre: "length xs + ?m \<le> length ?buf" using assms by simp
  note C = uninitialized_construct_n_eq[OF pre, of "default_init E" tr, unfolded Let_def bt t d]
  have c: "uninitialized_default_construct_n E ?buf (length xs) ?m tr =
     (if ?k = ?m then Returned () (map Object xs @ map Object ?ds @ map Raw (drop ?m rs),
                                   tr @ map Constructed ?ds)
      else Thrown (map Object xs @ map (\<lambda>x. Raw (Some x)) ?ds @ map Raw (drop ?k rs),
                   tr @ map Constructed ?ds @ map Destroyed ?ds))"
    by (simp only: uninitialized_default_construct_n_def C)
  have r: "Resize E n (vector_with xs rs, tr) =
     (case uninitialized_default_construct_n E ?buf (length xs) ?m tr of
        Thrown (buf, tr2) \<Rightarrow> Thrown (with_slots (vector_with xs rs) buf, tr2)
      | Returned _ (buf, tr2) \<Rightarrow>
          Returned () ((with_slots (vector_with xs rs) buf)\<lparr>m_size := n\<rparr>, tr2)
      | Undefined \<Rightarrow> Undefined)"
    using assms by (simp add: Resize_def Reserve_enough)
  have w1: "(with_slots (vector_with xs rs) (map Object xs @ map Object ?ds @ map Raw (drop ?m rs)))
              \<lparr>m_size := n\<rparr> = vector_with (xs @ ?ds) (drop ?m rs)" if "?k = ?m"
    using assms lds that by (simp add: vector_with_def with_slots_def)
  have w2: "with_slots (vector_with xs rs)
              (map Object xs @ map (\<lambda>x. Raw (Some x)) ?ds @ map Raw (drop ?k rs)) =
            vector_with xs (map Some ?ds @ drop ?k rs)"
    using assms lds k by (simp add: vector_with_def with_slots_def comp_def)
  show ?thesis
  proof (cases "?k = ?m")
    case True
    then show ?thesis unfolding r c Let_def using w1 by simp
  next
    case False
    then show ?thesis unfolding r c Let_def using w2 by simp
  qed
qed

text \<open>
  What resizing down and back up does, for every element type: on a vector of size \<open>n\<close>
  that satisfies the invariant, with \<open>m < n\<close>, both calls return when
  default-initialisation does not throw; the capacity and the first \<open>m\<close> elements are
  kept, and the object at each index from \<open>m\<close> on is what default-initialisation makes
  of the bytes of the object that was destroyed there. For a type whose default
  constructor sets the value \<open>d\<close> these are \<open>n - m\<close> objects of value \<open>d\<close>.
\<close>

lemma Resize_down_then_up:
  assumes "Vector_inv v" "m < m_size v" "\<forall>x. default_init E (Some x) \<noteq> None"
  shows "\<exists>v1 tr1 v2 tr2.
           Resize E m (v, tr) = Returned () (v1, tr1)
         \<and> Resize E (m_size v) (v1, tr1) = Returned () (v2, tr2)
         \<and> m_size v2 = m_size v \<and> Capacity v2 = Capacity v
         \<and> take m (elems v2) = take m (elems v)
         \<and> drop m (elems v2) = map (\<lambda>x. the (default_init E (Some x))) (drop m (elems v))"
proof -
  let ?xs = "elems v" and ?rs = "spare v"
  let ?f = "\<lambda>r. the (default_init E r)"
  have v: "v = vector_with ?xs ?rs" using assms(1) by (rule Vector_inv_is_vector_with)
  have len: "length ?xs = m_size v" using assms(1) by (rule length_elems)
  have cap: "Capacity v = length ?xs + length ?rs" using arg_cong[OF v, of Capacity] by simp
  let ?v1 = "vector_with (take m ?xs) (map Some (drop m ?xs) @ ?rs)"
  let ?tr1 = "tr @ map Destroyed (drop m ?xs)"
  let ?ds = "map ?f (map Some (drop m ?xs))"
  let ?v2 = "vector_with (take m ?xs @ ?ds) ?rs"
  have "Resize E m (vector_with ?xs ?rs, tr) = Returned () (?v1, ?tr1)"
    using assms(2) len by (intro Resize_shrink) simp
  then have down: "Resize E m (v, tr) = Returned () (?v1, ?tr1)" using v by simp
  let ?P = "\<lambda>r. default_init E r \<noteq> None"
  let ?zs = "map Some (drop m ?xs)"
  have all: "takeWhile ?P ?zs = ?zs"
    using assms(3) by (simp add: takeWhile_eq_all_conv)
  have lt: "length (take m ?xs) = m" using assms(2) len by simp
  have nm: "m_size v - m = length ?zs" using len by simp
  have r0: "take (length ?zs) (?zs @ ?rs) = ?zs" and d0: "drop (length ?zs) (?zs @ ?rs) = ?rs"
    by simp_all
  have tk: "take (length ?zs) ?zs = ?zs" by simp
  have pre: "m_size v \<le> length (take m ?xs) + length (?zs @ ?rs)" "length (take m ?xs) < m_size v"
    using assms(2) len by simp_all
  note G = Resize_grow_within[OF pre, of E ?tr1, unfolded Let_def lt nm r0 d0 all tk]
  have up: "Resize E (m_size v) (?v1, ?tr1) = Returned () (?v2, ?tr1 @ map Constructed ?ds)"
    using G by simp
  have "m_size ?v2 = m_size v" "Capacity ?v2 = Capacity v"
    "take m (elems ?v2) = take m ?xs"
    "drop m (elems ?v2) = map (\<lambda>x. the (default_init E (Some x))) (drop m ?xs)"
    using assms(2) len cap by (simp_all add: min_def comp_def)
  with up down show ?thesis by blast
qed

text \<open>
  C8 says that after resizing down and back up the elements from index \<open>m\<close> on hold
  default-constructed values and not the values they held before. \<^verbatim>\<open>Resize\<close> calls
  \<^verbatim>\<open>std::uninitialized_default_construct_n\<close>, which writes nothing for a type such as
  \<^verbatim>\<open>unsigned int\<close>: on the vector \<open>[1, 2, 3]\<close>, resizing to 1 and back to 3 gives
  \<open>[1, 2, 3]\<close> again, the old values. The constructor \<^verbatim>\<open>Vector(size_t)\<close> calls
  \<^verbatim>\<open>std::uninitialized_value_construct_n\<close>, and its elements are 0.
\<close>

theorem Resize_up_keeps_old_values:
  "Resize Plain 1 (vector_of [1, 2, 3] 3, []) =
     Returned () (vector_with [1] [Some 2, Some 3], [Destroyed 2, Destroyed 3])
   \<and> Resize Plain 3 (vector_with [1] [Some 2, Some 3], [Destroyed 2, Destroyed 3]) =
     Returned () (vector_of [1, 2, 3] 3, [Destroyed 2, Destroyed 3, Constructed 2, Constructed 3])
   \<and> elems (vector_of [1, 2, 3 :: nat] 3) = [1, 2, 3]
   \<and> Vector_sized Plain 3 [] =
     Returned (vector_of [0, 0, 0] 3) [Allocated 3, Constructed 0, Constructed 0, Constructed 0]"
  by code_simp

section \<open>Assignment and move\<close>

text \<open>
  C10. Copy-assigning a vector to itself changes nothing: the store, and with it the size,
  the capacity and the elements of the vector, and the log are as before the call.
\<close>

theorem copy_assign_self_unchanged:
  "copy_assign E this this (st, tr) = Returned () (st, tr)"
  by (simp add: copy_assign_def)

text \<open>
  C2 as the claim states it fails for move assignment: the operator swaps, so a source
  assigned to a vector that held one element is left with that element, not empty.
\<close>

theorem move_assign_source_not_empty:
  "m_size (move_assign 0 1
     ((\<lambda>_. Vector_default)
        (0 := \<lparr>m_data = \<lparr>m_buffer = [Object (1::nat)], m_capacity = 1\<rparr>, m_size = 1\<rparr>,
         1 := \<lparr>m_data = \<lparr>m_buffer = [Object 2], m_capacity = 1\<rparr>, m_size = 1\<rparr>)) 1) \<noteq> 0"
  by (simp add: move_assign_def Swap_at_eq)

text \<open>
  C2, amended. After a move construction the new vector is what the source was (the same
  elements in the same order) and the source is the empty vector. After a move assignment
  the destination is what the source was and the source is what the destination was: the
  source is left with the size of the destination, which is 0 only when the destination was
  empty.
\<close>

theorem move_takes_source:
  "fst (Vector_move src) = src \<and> snd (Vector_move src) = Vector_default
   \<and> elems (fst (Vector_move src)) = elems src \<and> m_size (snd (Vector_move src)) = 0
   \<and> move_assign this rhs st this = st rhs \<and> move_assign this rhs st rhs = st this
   \<and> elems (move_assign this rhs st this) = elems (st rhs)
   \<and> m_size (move_assign this rhs st rhs) = m_size (st this)"
  by (simp add: Vector_move_def move_assign_def Swap_at_eq Swap_eq Vector_default_def)

lemma Vector_dtor_eq:
  "Vector_dtor (vector_with xs rs) tr =
     Some (tr @ map Destroyed xs
              @ (if length xs + length rs = 0 then [] else [Released (length xs + length rs) []]))"
  by (simp add: Vector_dtor_def destroy_n_eq Deallocate_def)

lemma Vector_copy_eq:
  assumes "fits E (length ys)"
  shows "Vector_copy E (vector_with ys rs) tr =
     (if ys \<noteq> [] \<and> bad_alloc E (length ys * sizeof_T E) then Thrown tr
      else let k = length (takeWhile (\<lambda>y. \<not> copy_throws E y) ys) in
        if k = length ys then
          Returned (vector_with ys [])
                   (tr @ (if ys = [] then [] else [Allocated (length ys)]) @ map Copied ys)
        else Thrown (tr @ [Allocated (length ys)] @ map Copied (take k ys)
                        @ map Destroyed (take k ys) @ [Released (length ys) []]))"
  using length_takeWhile_le[of "\<lambda>y. \<not> copy_throws E y" ys]
  apply (simp add: Vector_copy_def RawMemory_new_fits[OF assms] Let_def)
  apply (auto simp: uninitialized_copy_n_eq Let_def Deallocate_def vector_with_def)
  done

lemma copy_assign_grow:
  assumes t: "st this = vector_with xs rs"
    and r: "st rhs = vector_with ys rs'"
    and gt: "length xs + length rs < length ys"
    and f: "fits E (length ys)"
  shows "copy_assign E this rhs (st, tr) =
     (if bad_alloc E (length ys * sizeof_T E) then Thrown (st, tr)
      else let k = length (takeWhile (\<lambda>y. \<not> copy_throws E y) ys) in
        if k = length ys then
          Returned ()
            (st(this := vector_with ys []),
             tr @ [Allocated (length ys)] @ map Copied ys @ map Destroyed xs
                @ (if length xs + length rs = 0 then [] else [Released (length xs + length rs) []]))
        else Thrown (st, tr @ [Allocated (length ys)] @ map Copied (take k ys)
                            @ map Destroyed (take k ys) @ [Released (length ys) []]))"
proof -
  have ne: "this \<noteq> rhs"
  proof
    assume "this = rhs"
    then have "vector_with xs rs = vector_with ys rs'" using t r by simp
    then have "m_size (vector_with xs rs) = m_size (vector_with ys rs')" by simp
    then show False using gt by simp
  qed
  have ys: "ys \<noteq> []" using gt by auto
  show ?thesis
    using ne ys gt t r
    by (simp add: copy_assign_def Vector_copy_eq[OF f] Swap_eq Vector_dtor_eq Let_def)
qed

lemma list_all_takeWhile: "list_all P xs \<longleftrightarrow> length (takeWhile P xs) = length xs"
  by (induction xs) auto

text \<open>
  C4. When the size of \<open>rhs\<close> exceeds the capacity of the assigned vector (both satisfy
  the invariant; the elements of \<open>rhs\<close> lie in memory, so their byte size is a value of
  \<^verbatim>\<open>size_t\<close>), the copy assignment first builds the whole copy in a new buffer of
  exactly that size. When the allocation or the copy of an element throws, the store, and
  so the assigned vector, is exactly as before the call, and what was copied so far has
  been destroyed and the new buffer released. Otherwise the copy is swapped in: the assigned
  vector then holds the elements of \<open>rhs\<close> in their order, every other vector of the
  store is as before, and the old elements are destroyed and the old buffer released.
\<close>

theorem copy_assign_beyond_capacity:
  assumes "Vector_inv (st this)" "Vector_inv (st rhs)" "Capacity (st this) < m_size (st rhs)"
    and "fits E (m_size (st rhs))"
  shows "copy_assign E this rhs (st, tr) =
     (if bad_alloc E (m_size (st rhs) * sizeof_T E) then Thrown (st, tr)
      else if list_all (\<lambda>y. \<not> copy_throws E y) (elems (st rhs)) then
        Returned ()
          (st(this := vector_of (elems (st rhs)) (m_size (st rhs))),
           tr @ [Allocated (m_size (st rhs))] @ map Copied (elems (st rhs))
              @ map Destroyed (elems (st this))
              @ (if Capacity (st this) = 0 then [] else [Released (Capacity (st this)) []]))
      else
        Thrown (st,
                tr @ [Allocated (m_size (st rhs))]
                   @ map Copied (takeWhile (\<lambda>y. \<not> copy_throws E y) (elems (st rhs)))
                   @ map Destroyed (takeWhile (\<lambda>y. \<not> copy_throws E y) (elems (st rhs)))
                   @ [Released (m_size (st rhs)) []]))"
proof -
  let ?xs = "elems (st this)" and ?rs = "spare (st this)"
  let ?ys = "elems (st rhs)" and ?rs' = "spare (st rhs)"
  let ?P = "\<lambda>y. \<not> copy_throws E y"
  have t: "st this = vector_with ?xs ?rs" using assms(1) by (rule Vector_inv_is_vector_with)
  have r: "st rhs = vector_with ?ys ?rs'" using assms(2) by (rule Vector_inv_is_vector_with)
  have ly: "length ?ys = m_size (st rhs)" using assms(2) by (rule length_elems)
  have cap: "Capacity (st this) = length ?xs + length ?rs"
    using arg_cong[OF t, of Capacity] by simp
  have gt: "length ?xs + length ?rs < length ?ys" using assms(3) ly cap by simp
  have f: "fits E (length ?ys)" using assms(4) ly by simp
  have all: "list_all ?P ?ys \<longleftrightarrow> length (takeWhile ?P ?ys) = length ?ys"
    by (rule list_all_takeWhile)
  have tk: "take (length (takeWhile ?P ?ys)) ?ys = takeWhile ?P ?ys"
    by (rule takeWhile_eq_take[symmetric])
  show ?thesis
    unfolding copy_assign_grow[OF t r gt f]
    by (simp add: Let_def all tk ly cap[symmetric] vector_with_Nil)
qed

theorem copy_assign_beyond_capacity_witness:
  "fits Obj 2
   \<and> copy_assign Obj 0 1 ((\<lambda>_. Vector_default)(0 := vector_of [1] 1, 1 := vector_of [2, 3] 2), []) =
     Returned ()
       (((\<lambda>_. Vector_default)(0 := vector_of [1] 1, 1 := vector_of [2, 3] 2))
          (0 := vector_of [2, 3] 2),
        [Allocated 2, Copied 2, Copied 3, Destroyed 1, Released 1 []])
   \<and> copy_assign Obj 0 1 ((\<lambda>_. Vector_default)(0 := vector_of [1] 1, 1 := vector_of [2, 7] 2), []) =
     Thrown ((\<lambda>_. Vector_default)(0 := vector_of [1] 1, 1 := vector_of [2, 7] 2),
             [Allocated 2, Copied 2, Destroyed 2, Released 2 []])"
proof -
  let ?s1 = "(\<lambda>_::nat. Vector_default)(0 := vector_of [1 :: nat] 1, 1 := vector_of [2, 3] 2)"
  let ?s2 = "(\<lambda>_::nat. Vector_default)(0 := vector_of [1 :: nat] 1, 1 := vector_of [2, 7] 2)"
  have f: "fits Obj 2" by (simp add: fits_def Obj_def)
  have h1: "Vector_inv (?s1 0)" "Vector_inv (?s1 1)" "Capacity (?s1 0) < m_size (?s1 1)"
    "fits Obj (m_size (?s1 1))"
    by (simp_all add: Vector_inv_vector_of fits_def Obj_def)
  have h2: "Vector_inv (?s2 0)" "Vector_inv (?s2 1)" "Capacity (?s2 0) < m_size (?s2 1)"
    "fits Obj (m_size (?s2 1))"
    by (simp_all add: Vector_inv_vector_of fits_def Obj_def)
  have A: "copy_assign Obj 0 1 (?s1, []) =
     Returned () (?s1(0 := vector_of [2, 3] 2),
                  [Allocated 2, Copied 2, Copied 3, Destroyed 1, Released 1 []])"
    by (subst copy_assign_beyond_capacity[OF h1]) (simp add: Obj_def numeral_2_eq_2)
  have B: "copy_assign Obj 0 1 (?s2, []) =
     Thrown (?s2, [Allocated 2, Copied 2, Destroyed 2, Released 2 []])"
    by (subst copy_assign_beyond_capacity[OF h2]) (simp add: Obj_def numeral_2_eq_2)
  show ?thesis by (intro conjI f A B)
qed

section \<open>Insertion at a position\<close>

lemma objects_map_Object_range:
  "a + n \<le> length ys \<Longrightarrow> objects (map Object ys @ rest) a n = take n (drop a ys)"
  by (simp add: objects_def take_map drop_map comp_def)

lemma all_live_map_Object_range:
  "a + n \<le> length ys \<Longrightarrow> all_live (map Object ys @ rest) a n"
  by (simp add: all_live_def list_all_iff take_map drop_map)

lemma copy_into_gap:
  assumes src: "a + n \<le> length ys" and d: "length pre = d" and gap: "n \<le> length gs"
  shows "uninitialized_copy_n E (map Object ys @ rest) a n (pre @ map Raw gs @ post) d tr =
     (let zs = take n (drop a ys); k = length (takeWhile (\<lambda>y. \<not> copy_throws E y) zs) in
      if k = n then
        Returned () (pre @ map Object zs @ map Raw (drop n gs) @ post, tr @ map Copied zs)
      else
        Thrown (pre @ map Raw (map Some (take k zs) @ drop k gs) @ post,
                tr @ map Copied (take k zs) @ map Destroyed (take k zs)))"
proof -
  let ?zs = "take n (drop a ys)"
  let ?k = "length (takeWhile (\<lambda>y. \<not> copy_throws E y) ?zs)"
  let ?dst = "pre @ map Raw gs @ post"
  let ?src = "map Object ys @ rest"
  have lz: "length ?zs = n" using src by simp
  have k: "?k \<le> n" using length_takeWhile_le[of "\<lambda>y. \<not> copy_throws E y" ?zs] lz by simp
  have obj: "objects ?src a n = ?zs" using src by (rule objects_map_Object_range)
  have lv: "all_live ?src a n" using src by (rule all_live_map_Object_range)
  have tk: "take d ?dst = pre" using d by simp
  have dr: "drop (d + j) ?dst = map Raw (drop j gs) @ post" if "j \<le> length gs" for j
    using d that by (simp add: drop_map)
  have dl: "d + n \<le> length ?dst" using d gap by simp
  note C = uninitialized_copy_n_eq[OF lv dl, of E tr, unfolded obj Let_def tk]
  show ?thesis
  proof (cases "?k = n")
    case True
    then show ?thesis unfolding C Let_def using dr[OF gap] by simp
  next
    case False
    have "?k \<le> length gs" using k gap by simp
    from dr[OF this] False show ?thesis unfolding C Let_def by (simp add: comp_def)
  qed
qed

lemma move_into_gap:
  assumes src: "a + n \<le> length ys" and d: "length pre = d" and gap: "n \<le> length gs"
  shows "uninitialized_move_n E (map Object ys @ rest) a n (pre @ map Raw gs @ post) d tr =
     (let zs = take n (drop a ys); k = length (takeWhile (\<lambda>y. \<not> move_fails E y) zs) in
      if k = n then
        Returned ()
          (map Object (take a ys @ map (moved_from E) zs @ drop (a + n) ys) @ rest,
           pre @ map Object zs @ map Raw (drop n gs) @ post, tr @ map Moved zs)
      else
        Thrown (map Object (take a ys @ map (moved_from E) (take k zs) @ drop (a + k) ys) @ rest,
                pre @ map Raw (map Some (take k zs) @ drop k gs) @ post,
                tr @ map Moved (take k zs) @ map Destroyed (take k zs)))"
proof -
  let ?zs = "take n (drop a ys)"
  let ?k = "length (takeWhile (\<lambda>y. \<not> move_fails E y) ?zs)"
  let ?dst = "pre @ map Raw gs @ post"
  let ?src = "map Object ys @ rest"
  have lz: "length ?zs = n" using src by simp
  have k: "?k \<le> n" using length_takeWhile_le[of "\<lambda>y. \<not> move_fails E y" ?zs] lz by simp
  have obj: "objects ?src a n = ?zs" using src by (rule objects_map_Object_range)
  have lv: "all_live ?src a n" using src by (rule all_live_map_Object_range)
  have tk: "take d ?dst = pre" using d by simp
  have dr: "drop (d + j) ?dst = map Raw (drop j gs) @ post" if "j \<le> length gs" for j
    using d that by (simp add: drop_map)
  have stk: "take a ?src = map Object (take a ys)" using src by (simp add: take_map)
  have sdr: "drop (a + j) ?src = map Object (drop (a + j) ys) @ rest" if "j \<le> n" for j
    using src that by (simp add: drop_map)
  have dl: "d + n \<le> length ?dst" using d gap by simp
  note C = uninitialized_move_n_eq[OF lv dl, of E tr, unfolded obj Let_def tk stk]
  show ?thesis
  proof (cases "?k = n")
    case True
    then show ?thesis unfolding C Let_def using dr[OF gap] sdr[of n] by (simp add: comp_def)
  next
    case False
    have "?k \<le> length gs" using k gap by simp
    from dr[OF this] sdr[OF k] False show ?thesis unfolding C Let_def by (simp add: comp_def)
  qed
qed

lemma destroy_live_prefix:
  "destroy_n (map Object zs @ rest) 0 (length zs) tr =
     Some (map (\<lambda>x. Raw (Some x)) zs @ rest, tr @ map Destroyed zs)"
  by (subst destroy_n_eq) simp_all

lemma destroy_at_sandwich:
  "length pre = i \<Longrightarrow>
   destroy_at (pre @ Object x # post) i tr = Some (pre @ Raw (Some x) # post, tr @ [Destroyed x])"
  by (simp add: destroy_at_def object_at_def nth_append list_update_append)

lemma Emplace_grow_copy:
  assumes nm: "\<not> migrate_by_move E" and al: "allocates E (grown (length xs))"
    and pos: "i < length xs"
  shows "Emplace E i (Some x) (vector_with xs [], tr) =
     (let c = grown (length xs); pre = take i xs; suf = drop i xs;
          k1 = length (takeWhile (\<lambda>y. \<not> copy_throws E y) pre);
          k2 = length (takeWhile (\<lambda>y. \<not> copy_throws E y) suf) in
      if k1 \<noteq> i then
        Thrown (vector_with xs [],
                tr @ [Allocated c, Constructed x] @ map Copied (take k1 pre)
                   @ map Destroyed (take k1 pre) @ [Destroyed x, Released c []])
      else if k2 \<noteq> length suf then
        Thrown (vector_with xs [],
                tr @ [Allocated c, Constructed x] @ map Copied pre @ map Copied (take k2 suf)
                   @ map Destroyed (take k2 suf) @ map Destroyed pre
                   @ [Destroyed x, Released c []])
      else
        Returned i
          (vector_of (pre @ x # suf) c,
           tr @ [Allocated c, Constructed x] @ map Copied pre @ map Copied suf
              @ map Destroyed xs @ [Released (length xs) []]))"
proof -
  let ?n = "length xs"
  let ?c = "?n * 2"
  let ?P = "\<lambda>y. \<not> copy_throws E y"
  let ?R = "Raw None :: 'a slot"
  define pre suf where "pre = take i xs" and "suf = drop i xs"
  define k1 k2 where "k1 = length (takeWhile ?P pre)" and "k2 = length (takeWhile ?P suf)"
  define p1 p2 where "p1 = take k1 pre" and "p2 = take k2 suf"
  define g where "g = ?c - Suc i"
  have n0: "0 < ?n" "xs \<noteq> []" using pos by auto
  have c: "grown ?n = ?c" using n0 by simp
  have al2: "allocates E ?c" using al c by simp
  then have d2: "size_t_mul ?n 2 = ?c"
    using size_t_double[of E ?n] by (simp add: allocates_def)
  have ic: "i < ?c" "Suc ?n \<le> ?c" using pos by simp_all
  have lp: "length pre = i" and ls: "length suf = ?n - i" using pos by (simp_all add: pre_def suf_def)
  have xs: "xs = pre @ suf" by (simp add: pre_def suf_def)
  have k1: "k1 \<le> i" using length_takeWhile_le[of ?P pre] lp by (simp add: k1_def)
  have k2: "k2 \<le> ?n - i" using length_takeWhile_le[of ?P suf] ls by (simp add: k2_def)
  have l1: "length p1 = k1" using k1 lp by (simp add: p1_def)
  have l2: "length p2 = k2" using k2 ls by (simp add: p2_def)
  have gs: "?n - i \<le> g" "g = (?n - i) + (?c - Suc ?n)" using pos by (simp_all add: g_def)
  have P1: "uninitialized_copy_n E (map Object xs) 0 i
              (replicate i ?R @ Object x # replicate g ?R) 0 tr' =
     (if k1 = i then
        Returned () (map Object pre @ Object x # replicate g ?R, tr' @ map Copied pre)
      else
        Thrown (map Raw (map Some p1 @ replicate (i - k1) None) @ Object x # replicate g ?R,
                tr' @ map Copied p1 @ map Destroyed p1))" for tr'
    using copy_into_gap[of 0 i xs "[]" 0 "replicate i None" E "[]"
        "Object x # replicate g ?R" tr'] pos
    by (simp add: Let_def pre_def k1_def p1_def)
  have P2: "uninitialized_copy_n E (map Object xs) i (?n - i)
              (map Object pre @ Object x # replicate g ?R) (Suc i) tr' =
     (if k2 = ?n - i then
        Returned () (map Object (pre @ x # suf) @ replicate (?c - Suc ?n) ?R, tr' @ map Copied suf)
      else
        Thrown (map Object (pre @ [x]) @ map Raw (map Some p2 @ replicate (g - k2) None),
                tr' @ map Copied p2 @ map Destroyed p2))" for tr'
    using copy_into_gap[of i "?n - i" xs "map Object pre @ [Object x]" "Suc i"
        "replicate g None" E "[]" "[]" tr'] pos gs(1) lp
    by (simp add: Let_def suf_def k2_def p2_def gs(2))
  have D0: "destroy_at (map (Raw \<circ> Some) p1 @ replicate (i - k1) ?R
                  @ Object x # replicate g ?R) i tr' =
            Some (map (Raw \<circ> Some) p1 @ replicate (i - k1) ?R
                  @ Raw (Some x) # replicate g ?R, tr' @ [Destroyed x])" for tr'
    using k1 destroy_at_sandwich[of "map (Raw \<circ> Some) p1 @ replicate (i - k1) ?R" i x
        "replicate g ?R" tr']
    by (simp add: l1)
  have D1: "destroy_n (map Object pre @ Object x # rest) 0 (Suc i) tr' =
              Some (map (Raw \<circ> Some) pre @ Raw (Some x) # rest,
                    tr' @ map Destroyed pre @ [Destroyed x])" for tr' rest
    using destroy_live_prefix[of "pre @ [x]" rest tr'] lp
    by (simp add: comp_def del: destroy_n.simps)
  have D2: "destroy_n (map Object xs) 0 ?n tr' =
              Some (map (\<lambda>x. Raw (Some x)) xs, tr' @ map Destroyed xs)" for tr'
    using destroy_live_prefix[of xs "[]" tr'] by simp
  have start: "Emplace E i (Some x) (vector_with xs [], tr) =
     (case uninitialized_copy_n E (map Object xs) 0 i
             (replicate i ?R @ Object x # replicate g ?R) 0
             (tr @ [Allocated ?c, Constructed x]) of
        Thrown (dst, tr3) \<Rightarrow>
          (case destroy_at dst i tr3 of
             None \<Rightarrow> Undefined
           | Some (dst', tr4) \<Rightarrow>
               Thrown (vector_with xs [],
                       Deallocate \<lparr>m_buffer = dst', m_capacity = ?c\<rparr> tr4))
      | Returned _ (dst, tr3) \<Rightarrow>
          (case uninitialized_copy_n E (map Object xs) i (?n - i) dst (Suc i) tr3 of
             Thrown (dst', tr4) \<Rightarrow>
               (case destroy_n dst' 0 (Suc i) tr4 of
                  None \<Rightarrow> Undefined
                | Some (dst'', tr5) \<Rightarrow>
                    Thrown (vector_with xs [],
                            Deallocate \<lparr>m_buffer = dst'', m_capacity = ?c\<rparr> tr5))
           | Returned _ (dst', tr4) \<Rightarrow>
               (case destroy_n (map Object xs) 0 ?n tr4 of
                  None \<Rightarrow> Undefined
                | Some (old, tr5) \<Rightarrow>
                    Returned i
                      (\<lparr>m_data = \<lparr>m_buffer = dst', m_capacity = ?c\<rparr>, m_size = ?n + 1\<rparr>,
                       Deallocate \<lparr>m_buffer = old, m_capacity = ?n\<rparr> tr5))
           | Undefined \<Rightarrow> Undefined)
      | Undefined \<Rightarrow> Undefined)"
    using nm pos n0 ic
    by (simp add: Emplace_def d2 RawMemory_new_allocates[OF al2] Let_def replicate_update
          RawMemory_Swap_eq with_slots_def g_def
          del: destroy_n.simps cong: outcome.case_cong option.case_cong)
  have R: "Emplace E i (Some x) (vector_with xs [], tr) =
     (if k1 \<noteq> i then
        Thrown (vector_with xs [],
                tr @ [Allocated ?c, Constructed x] @ map Copied p1
                   @ map Destroyed p1 @ [Destroyed x, Released ?c []])
      else if k2 \<noteq> length suf then
        Thrown (vector_with xs [],
                tr @ [Allocated ?c, Constructed x] @ map Copied pre @ map Copied p2
                   @ map Destroyed p2 @ map Destroyed pre
                   @ [Destroyed x, Released ?c []])
      else
        Returned i
          (vector_of (pre @ x # suf) ?c,
           tr @ [Allocated ?c, Constructed x] @ map Copied pre @ map Copied suf
              @ map Destroyed xs @ [Released ?n []]))"
  proof (cases "k1 = i")
    case False
    then show ?thesis
      unfolding start P1 using n0
      by (simp add: D0 Deallocate_def del: destroy_n.simps)
  next
    case T1: True
    show ?thesis
    proof (cases "k2 = ?n - i")
      case False
      then show ?thesis
        unfolding start P1 using T1 n0 ls
        by (simp add: P2 D1 Deallocate_def del: destroy_n.simps)
    next
      case True
      then show ?thesis
        unfolding start P1 using T1 n0 pos ls lp
        by (simp add: P2 D2 Deallocate_def vector_of_def del: destroy_n.simps)
    qed
  qed
  show ?thesis
    unfolding R Let_def c
    by (simp only: pre_def suf_def k1_def k2_def p1_def p2_def)
qed

text \<open>
  C6. A full vector that satisfies the invariant grows on \<open>Emplace\<close> before its end, and
  its elements migrate by copying; the allocation of the new buffer succeeds. When a copy
  of an element before the position throws, the copies made so far are destroyed, then
  the new element, and the new buffer is released with nothing alive in it. When the
  elements before the position are all copied and a copy of an element from the position
  on throws, the copies made of that range are destroyed, then the copies of the elements
  before the position and the new element, and the new buffer is released with nothing
  alive in it. Both times the vector that the caller finds is the vector as it was.
\<close>

theorem Emplace_growth_rollback:
  assumes "Vector_inv v" "m_size v = Capacity v" "pos < m_size v"
    and "\<not> migrate_by_move E" "allocates E (grown (m_size v))"
  shows "(\<not> list_all (\<lambda>y. \<not> copy_throws E y) (take pos (elems v)) \<longrightarrow>
            Emplace E pos (Some x) (v, tr) =
              Thrown (v, tr @ [Allocated (grown (m_size v)), Constructed x]
                            @ map Copied (takeWhile (\<lambda>y. \<not> copy_throws E y) (take pos (elems v)))
                            @ map Destroyed (takeWhile (\<lambda>y. \<not> copy_throws E y) (take pos (elems v)))
                            @ [Destroyed x, Released (grown (m_size v)) []]))
       \<and> (list_all (\<lambda>y. \<not> copy_throws E y) (take pos (elems v))
            \<and> \<not> list_all (\<lambda>y. \<not> copy_throws E y) (drop pos (elems v)) \<longrightarrow>
            Emplace E pos (Some x) (v, tr) =
              Thrown (v, tr @ [Allocated (grown (m_size v)), Constructed x]
                            @ map Copied (take pos (elems v))
                            @ map Copied (takeWhile (\<lambda>y. \<not> copy_throws E y) (drop pos (elems v)))
                            @ map Destroyed (takeWhile (\<lambda>y. \<not> copy_throws E y) (drop pos (elems v)))
                            @ map Destroyed (take pos (elems v))
                            @ [Destroyed x, Released (grown (m_size v)) []]))"
proof -
  let ?xs = "elems v"
  let ?P = "\<lambda>y. \<not> copy_throws E y"
  have len: "length ?xs = m_size v" using assms(1) by (rule length_elems)
  have v0: "v = vector_with ?xs (spare v)" using assms(1) by (rule Vector_inv_is_vector_with)
  have "Capacity v = length ?xs + length (spare v)" using arg_cong[OF v0, of Capacity] by simp
  then have "spare v = []" using assms(2) len by simp
  then have v: "v = vector_with ?xs []" using v0 by simp
  have pos: "pos < length ?xs" using assms(3) len by simp
  have al: "allocates E (grown (length ?xs))" using assms(5) len by simp
  note E = Emplace_grow_copy[OF assms(4) al pos, of x tr, folded v]
  have lp: "length (take pos ?xs) = pos" using pos by simp
  have k1: "length (takeWhile ?P (take pos ?xs)) = pos \<longleftrightarrow> list_all ?P (take pos ?xs)"
    using list_all_takeWhile[of ?P "take pos ?xs"] lp by simp
  have k2: "length (takeWhile ?P (drop pos ?xs)) = length (drop pos ?xs)
              \<longleftrightarrow> list_all ?P (drop pos ?xs)"
    using list_all_takeWhile[of ?P "drop pos ?xs"] by simp
  have tk: "take (length (takeWhile ?P zs)) zs = takeWhile ?P zs" for zs
    by (rule takeWhile_eq_take[symmetric])
  show ?thesis
    unfolding E Let_def k1 k2 tk by (simp add: len)
qed

theorem Emplace_growth_rollback_witness:
  "allocates Obj 8
   \<and> Emplace Obj 2 (Some 5) (vector_of [1, 7, 3, 4] 4, []) =
     Thrown (vector_of [1, 7, 3, 4] 4,
             [Allocated 8, Constructed 5, Copied 1, Destroyed 1, Destroyed 5, Released 8 []])
   \<and> Emplace Obj 2 (Some 5) (vector_of [1, 2, 3, 7] 4, []) =
     Thrown (vector_of [1, 2, 3, 7] 4,
             [Allocated 8, Constructed 5, Copied 1, Copied 2, Copied 3, Destroyed 3,
              Destroyed 1, Destroyed 2, Destroyed 5, Released 8 []])"
proof -
  let ?v = "vector_of [1, 7, 3, 4 :: nat] 4" and ?w = "vector_of [1, 2, 3, 7 :: nat] 4"
  have hv: "Vector_inv ?v" "m_size ?v = Capacity ?v" "2 < m_size ?v"
    and hw: "Vector_inv ?w" "m_size ?w = Capacity ?w" "2 < m_size ?w"
    by (simp_all add: Vector_inv_vector_of)
  have nm: "\<not> migrate_by_move Obj" by (simp add: Obj_def migrate_by_move_def)
  have a8: "allocates Obj 8" by (simp add: Obj_def allocates_def fits_def)
  have al: "allocates Obj (grown (m_size ?v))" "allocates Obj (grown (m_size ?w))"
    using a8 by simp_all
  have prefix: "\<not> list_all (\<lambda>y. \<not> copy_throws Obj y) (take 2 (elems ?v))"
    by (simp add: Obj_def)
  have suffix: "list_all (\<lambda>y. \<not> copy_throws Obj y) (take 2 (elems ?w))
      \<and> \<not> list_all (\<lambda>y. \<not> copy_throws Obj y) (drop 2 (elems ?w))"
    by (simp add: Obj_def)
  note A = Emplace_growth_rollback[OF hv nm al(1), of 5 "[]", THEN conjunct1, rule_format, OF prefix]
  note B = Emplace_growth_rollback[OF hw nm al(2), of 5 "[]", THEN conjunct2, rule_format, OF suffix]
  have C: "Emplace Obj 2 (Some 5) (?v, []) =
     Thrown (?v, [Allocated 8, Constructed 5, Copied 1, Destroyed 1, Destroyed 5, Released 8 []])
   \<and> Emplace Obj 2 (Some 5) (?w, []) =
     Thrown (?w, [Allocated 8, Constructed 5, Copied 1, Copied 2, Copied 3, Destroyed 3,
              Destroyed 1, Destroyed 2, Destroyed 5, Released 8 []])"
    by (subst A, subst B) code_simp
  from a8 C show ?thesis by blast
qed

section \<open>Insertion and removal\<close>

lemma object_at_mid:
  "length pre = a \<Longrightarrow> object_at (pre @ Object y # post) a = Some y"
  by (simp add: object_at_def nth_append)

lemma object_at_next:
  "length pre = a \<Longrightarrow> object_at (pre @ s # Object y # post) (Suc a) = Some y"
  by (simp add: object_at_def nth_append)

lemma move_backward_step:
  assumes "length pre = a"
  shows "move_backward E (pre @ Object y # Object h # post) first (Suc a) (Suc (Suc a)) =
           (if first < Suc a then
              (if move_assign_throws E y then Thrown (pre @ Object y # Object h # post)
               else move_backward E (pre @ Object (moved_from E y) # Object y # post) first a (Suc a))
            else Returned () (pre @ Object y # Object h # post))"
proof -
  have at: "object_at (pre @ Object y # Object h # post) a = Some y"
    using assms by (rule object_at_mid)
  have at2: "object_at (pre @ Object y # Object h # post) (Suc a) = Some h"
    using assms by (rule object_at_next)
  have upd: "(pre @ Object y # Object h # post)[a := u, Suc a := w] = pre @ u # w # post" for u w
    using assms by (simp add: list_update_append)
  show ?thesis
    by (subst move_backward.simps) (simp add: at at2 upd del: list_update.simps)
qed

lemma move_backward_shift:
  assumes "length pre = a" "list_all (\<lambda>y. \<not> move_assign_throws E y) ys"
  shows "move_backward E (pre @ map Object ys @ Object h # post) a (a + length ys) (Suc (a + length ys)) =
           Returned () (if ys = [] then pre @ Object h # post
                        else pre @ Object (moved_from E (hd ys)) # map Object ys @ post)"
  using assms
proof (induction ys arbitrary: h post rule: rev_induct)
  case Nil
  then show ?case by (simp add: move_backward.simps)
next
  case (snoc y zs)
  have ok: "\<not> move_assign_throws E y" "list_all (\<lambda>y. \<not> move_assign_throws E y) zs"
    using snoc.prems by simp_all
  have l: "length (pre @ map Object zs) = a + length zs" using snoc.prems(1) by simp
  have "move_backward E (pre @ map Object (zs @ [y]) @ Object h # post) a
          (a + length (zs @ [y])) (Suc (a + length (zs @ [y]))) =
        move_backward E ((pre @ map Object zs) @ Object y # Object h # post) a
          (Suc (a + length zs)) (Suc (Suc (a + length zs)))"
    by simp
  also have "\<dots> = move_backward E ((pre @ map Object zs) @ Object (moved_from E y) # Object y # post)
                     a (a + length zs) (Suc (a + length zs))"
    unfolding move_backward_step[OF l] using ok by simp
  also have "\<dots> = move_backward E (pre @ map Object zs @ Object (moved_from E y) # Object y # post)
                     a (a + length zs) (Suc (a + length zs))"
    by simp
  also have "\<dots> = Returned () (if zs = [] then pre @ Object (moved_from E y) # Object y # post
                        else pre @ Object (moved_from E (hd zs)) # map Object zs @ Object y # post)"
    by (rule snoc.IH[OF snoc.prems(1) ok(2)])
  finally show ?case by (cases zs) simp_all
qed

lemma move_backward_throws:
  assumes "length pre = a" "\<not> list_all (\<lambda>y. \<not> move_assign_throws E y) ys"
  shows "\<exists>s. move_backward E (pre @ map Object ys @ Object h # post) a (a + length ys)
                (Suc (a + length ys)) = Thrown s"
  using assms
proof (induction ys arbitrary: h post rule: rev_induct)
  case Nil
  then show ?case by simp
next
  case (snoc y zs)
  have l: "length (pre @ map Object zs) = a + length zs" using snoc.prems(1) by simp
  have e: "move_backward E (pre @ map Object (zs @ [y]) @ Object h # post) a
          (a + length (zs @ [y])) (Suc (a + length (zs @ [y]))) =
        move_backward E ((pre @ map Object zs) @ Object y # Object h # post) a
          (Suc (a + length zs)) (Suc (Suc (a + length zs)))"
    by simp
  show ?case
  proof (cases "move_assign_throws E y")
    case True
    then show ?thesis unfolding e move_backward_step[OF l] by simp
  next
    case False
    then have bad: "\<not> list_all (\<lambda>y. \<not> move_assign_throws E y) zs" using snoc.prems(2) by simp
    from snoc.IH[OF snoc.prems(1) bad, of "moved_from E y" "Object y # post"] obtain s where
      "move_backward E (pre @ map Object zs @ Object (moved_from E y) # Object y # post)
         a (a + length zs) (Suc (a + length zs)) = Thrown s"
      by blast
    then show ?thesis unfolding e move_backward_step[OF l] using False by simp
  qed
qed

lemma move_range_step:
  assumes "length pre = a"
  shows "move_range E (pre @ Object h # Object y # rest) (Suc a) (Suc (Suc (a + n))) a =
           (if move_assign_throws E y then Thrown (pre @ Object h # Object y # rest)
            else move_range E (pre @ Object y # Object (moved_from E y) # rest)
                   (Suc (Suc a)) (Suc (Suc (a + n))) (Suc a))"
proof -
  have at: "object_at (pre @ Object h # Object y # rest) (Suc a) = Some y"
    using assms by (rule object_at_next)
  have at2: "object_at (pre @ Object h # Object y # rest) a = Some h"
    using assms by (rule object_at_mid)
  have upd: "(pre @ Object h # Object y # rest)[Suc a := u, a := w] = pre @ w # u # rest" for u w
    using assms by (simp add: list_update_append)
  show ?thesis
    by (subst move_range.simps) (simp add: at at2 upd del: list_update.simps)
qed

lemma move_range_shift:
  assumes "length pre = a" "list_all (\<lambda>y. \<not> move_assign_throws E y) ys"
  shows "move_range E (pre @ Object h # map Object ys @ post) (Suc a) (Suc (a + length ys)) a =
           Returned () (if ys = [] then pre @ Object h # post
                        else pre @ map Object ys @ Object (moved_from E (last ys)) # post)"
  using assms
proof (induction ys arbitrary: pre a h)
  case Nil
  then show ?case by (simp add: move_range.simps)
next
  case (Cons y zs)
  have ok: "\<not> move_assign_throws E y" "list_all (\<lambda>y. \<not> move_assign_throws E y) zs"
    using Cons.prems by simp_all
  have l: "length (pre @ [Object y]) = Suc a" using Cons.prems(1) by simp
  have "move_range E (pre @ Object h # map Object (y # zs) @ post) (Suc a) (Suc (a + length (y # zs))) a =
        move_range E ((pre @ [Object y]) @ Object (moved_from E y) # map Object zs @ post)
          (Suc (Suc a)) (Suc (Suc a + length zs)) (Suc a)"
    using move_range_step[OF Cons.prems(1), of E h y "map Object zs @ post" "length zs"] ok by simp
  also have "\<dots> = Returned () (if zs = [] then (pre @ [Object y]) @ Object (moved_from E y) # post
                        else (pre @ [Object y]) @ map Object zs @ Object (moved_from E (last zs)) # post)"
    by (rule Cons.IH[OF l ok(2)])
  finally show ?case by simp
qed

lemma move_range_throws:
  assumes "length pre = a" "\<not> list_all (\<lambda>y. \<not> move_assign_throws E y) ys"
  shows "\<exists>s. move_range E (pre @ Object h # map Object ys @ post) (Suc a) (Suc (a + length ys)) a
               = Thrown s"
  using assms
proof (induction ys arbitrary: pre a h)
  case Nil
  then show ?case by simp
next
  case (Cons y zs)
  note step = move_range_step[OF Cons.prems(1), of E h y "map Object zs @ post" "length zs"]
  show ?case
  proof (cases "move_assign_throws E y")
    case True
    then show ?thesis using step by simp
  next
    case False
    then have bad: "\<not> list_all (\<lambda>y. \<not> move_assign_throws E y) zs" using Cons.prems(2) by simp
    have l: "length (pre @ [Object y]) = Suc a" using Cons.prems(1) by simp
    from Cons.IH[OF l bad, of "moved_from E y"] obtain s where
      "move_range E ((pre @ [Object y]) @ Object (moved_from E y) # map Object zs @ post)
         (Suc (Suc a)) (Suc (Suc a + length zs)) (Suc a) = Thrown s"
      by blast
    then show ?thesis using step False by simp
  qed
qed

lemma PopBack_eq:
  "PopBack (vector_with (xs @ [z]) rs, tr) =
     Returned () (vector_with xs (Some z # rs), tr @ [Destroyed z])"
proof -
  have "destroy_at (map Object xs @ Object z # map Raw rs) (length xs) tr =
          Some (map Object xs @ Raw (Some z) # map Raw rs, tr @ [Destroyed z])"
    by (rule destroy_at_sandwich) simp
  then show ?thesis
    by (simp add: PopBack_def with_slots_def vector_with_def slots_of_def)
qed

lemma Erase_decomposed:
  "\<exists>s. Erase E (length pre) (vector_with (pre @ z # suf) rs, tr) =
           (if list_all (\<lambda>y. \<not> move_assign_throws E y) suf then
              Returned (length pre)
                (vector_with (pre @ suf) (Some (if suf = [] then z else moved_from E (last suf)) # rs),
                 tr @ [Destroyed (if suf = [] then z else moved_from E (last suf))])
            else Thrown s)"
proof (cases "suf = []")
  case True
  then show ?thesis
    using PopBack_eq[of pre z rs tr] by (simp add: Erase_def)
next
  case False
  let ?post = "map Raw rs"
  let ?buf = "map Object pre @ Object z # map Object suf @ ?post"
  have lp: "length (map Object pre) = length pre" by simp
  have sl: "slots_of (vector_with (pre @ z # suf) rs) = ?buf" by simp
  show ?thesis
  proof (cases "list_all (\<lambda>y. \<not> move_assign_throws E y) suf")
    case ok: True
    have mr: "move_range E ?buf (Suc (length pre)) (Suc (length pre + length suf)) (length pre) =
                Returned () (map Object pre @ map Object suf @ Object (moved_from E (last suf)) # ?post)"
      using move_range_shift[OF lp ok, of z ?post] False by simp
    have da: "destroy_at (map Object pre @ map Object suf @ Object (moved_from E (last suf)) # ?post)
                (length pre + length suf) tr =
              Some (map Object pre @ map Object suf @ Raw (Some (moved_from E (last suf))) # ?post,
                    tr @ [Destroyed (moved_from E (last suf))])"
      using destroy_at_sandwich[of "map Object pre @ map Object suf" "length pre + length suf"
          "moved_from E (last suf)" ?post tr]
      by simp
    show ?thesis
      using False ok mr da
      by (simp add: Erase_def Let_def with_slots_def vector_with_def slots_of_def)
  next
    case bad: False
    from move_range_throws[OF lp bad, of z ?post] obtain s where
      "move_range E ?buf (Suc (length pre)) (Suc (length pre + length suf)) (length pre) = Thrown s"
      by blast
    then show ?thesis
      using False bad by (simp add: Erase_def Let_def)
  qed
qed

lemma Emplace_room_decomposed:
  "\<exists>s. Emplace E (length pre) (Some x) (vector_with (pre @ mid @ [back]) (r # rs), tr) =
           (if \<not> move_fails E back \<and> list_all (\<lambda>y. \<not> move_assign_throws E y) mid
               \<and> \<not> move_assign_throws E x
            then Returned (length pre)
                   (vector_with (pre @ x # mid @ [back]) rs,
                    tr @ [Constructed x, Moved back, Destroyed (moved_from E x)])
            else Thrown s)"
proof -
  let ?n = "length pre + length mid"
  let ?v = "vector_with (pre @ mid @ [back]) (r # rs)"
  let ?rest = "map Raw rs"
  let ?slots = "map Object pre @ map Object mid @ Object back # Raw r # ?rest"
  let ?buf1 = "map Object pre @ map Object mid @ Object (moved_from E back) # Object back # ?rest"
  have sl: "slots_of ?v = ?slots" by simp
  have sz: "m_size ?v = Suc ?n" by simp
  have cp: "Capacity ?v = Suc (Suc ?n) + length rs" by simp
  have at: "object_at ?slots ?n = Some back"
    using object_at_mid[of "map Object pre @ map Object mid" "?n" "back" "Raw r # ?rest"] by simp
  have upd1: "?slots[?n := u, Suc ?n := w] = map Object pre @ map Object mid @ u # w # ?rest" for u w
    by (simp add: list_update_append)
  have lp: "length (map Object pre) = length pre" by simp
  have upd2: "(map Object pre @ u # more)[length pre := w] = map Object pre @ w # more" for u w more
    by (simp add: list_update_append)
  have fin: "with_slots ?v (map Object pre @ Object x # map Object mid @ Object back # ?rest)
               \<lparr>m_size := Suc (Suc ?n)\<rparr>
             = vector_with (pre @ x # mid @ [back]) rs"
    by (simp add: with_slots_def vector_with_def)
  have head: "Emplace E (length pre) (Some x) (?v, tr) =
      (if move_fails E back
       then Thrown (?v, tr @ [Constructed x, Destroyed x])
       else case move_backward E ?buf1 (length pre) ?n (Suc ?n) of
              Thrown buf2 \<Rightarrow>
                Thrown (with_slots ?v buf2, tr @ [Constructed x, Moved back, Destroyed x])
            | Returned _ buf2 \<Rightarrow>
                if object_at buf2 (length pre) = None then Undefined
                else if move_assign_throws E x
                then Thrown (with_slots ?v buf2, tr @ [Constructed x, Moved back, Destroyed x])
                else Returned (length pre)
                       ((with_slots ?v (buf2[length pre := Object x]))\<lparr>m_size := Suc (Suc ?n)\<rparr>,
                        tr @ [Constructed x, Moved back, Destroyed (moved_from E x)])
            | Undefined \<Rightarrow> Undefined)"
    unfolding Emplace_def
    using at upd1
    by (simp add: Let_def sl sz cp del: list_update.simps vector_with_simps
          cong: outcome.case_cong if_cong)
  show ?thesis
  proof (cases "list_all (\<lambda>y. \<not> move_assign_throws E y) mid")
    case ok: True
    define buf2 where "buf2 = (if mid = [] then ?buf1
                             else map Object pre @ Object (moved_from E (hd mid)) # map Object mid
                                    @ Object back # ?rest)"
    have mb: "move_backward E ?buf1 (length pre) ?n (Suc ?n) = Returned () buf2"
      using move_backward_shift[OF lp ok, of "moved_from E back" "Object back # ?rest"]
      by (simp add: buf2_def)
    have at2: "object_at buf2 (length pre) =
                 Some (moved_from E (if mid = [] then back else hd mid))"
      using object_at_mid[OF lp] by (cases "mid = []") (simp_all add: buf2_def)
    have put: "buf2[length pre := Object x] =
               map Object pre @ Object x # map Object mid @ Object back # ?rest"
      by (cases "mid = []") (simp_all add: upd2 buf2_def)
    show ?thesis
      unfolding head mb using ok by (simp add: at2 put fin del: list_update.simps)
  next
    case bad: False
    from move_backward_throws[OF lp bad, of "moved_from E back" "Object back # ?rest"]
    obtain s where "move_backward E ?buf1 (length pre) ?n (Suc ?n) = Thrown s" by auto
    then show ?thesis unfolding head using bad by simp
  qed
qed

lemma map_take_drop: "map f (take i xs) @ map f (drop i xs) = map f xs"
  by (simp flip: map_append)

lemma Emplace_grow_move:
  assumes mv: "migrate_by_move E" and al: "allocates E (grown (length xs))"
    and pos: "i < length xs"
  shows "\<exists>s. Emplace E i (Some x) (vector_with xs [], tr) =
           (if list_all (\<lambda>y. \<not> move_fails E y) xs then
              Returned i
                (vector_of (take i xs @ x # drop i xs) (grown (length xs)),
                 tr @ [Allocated (grown (length xs)), Constructed x] @ map Moved xs
                    @ map Destroyed (map (moved_from E) xs) @ [Released (length xs) []])
            else Thrown s)"
proof -
  let ?n = "length xs"
  let ?c = "?n * 2"
  let ?P = "\<lambda>y. \<not> move_fails E y"
  let ?mf = "moved_from E"
  let ?R = "Raw None :: 'a slot"
  define pre suf where "pre = take i xs" and "suf = drop i xs"
  define k1 k2 where "k1 = length (takeWhile ?P pre)" and "k2 = length (takeWhile ?P suf)"
  define g where "g = ?c - Suc i"
  have n0: "0 < ?n" "xs \<noteq> []" using pos by auto
  have c: "grown ?n = ?c" using n0 by simp
  have al2: "allocates E ?c" using al c by simp
  then have d2: "size_t_mul ?n 2 = ?c"
    using size_t_double[of E ?n] by (simp add: allocates_def)
  have ic: "i < ?c" "Suc ?n \<le> ?c" using pos by simp_all
  have lp: "length pre = i" and ls: "length suf = ?n - i" using pos by (simp_all add: pre_def suf_def)
  have xs: "xs = pre @ suf" by (simp add: pre_def suf_def)
  have gs: "?n - i \<le> g" "g = (?n - i) + (?c - Suc ?n)" using pos by (simp_all add: g_def)
  have all: "list_all ?P xs \<longleftrightarrow> list_all ?P pre \<and> list_all ?P suf"
    by (simp add: xs)
  have k1: "k1 = i \<longleftrightarrow> list_all ?P pre"
    using list_all_takeWhile[of ?P pre] lp by (simp add: k1_def)
  have k2: "k2 = ?n - i \<longleftrightarrow> list_all ?P suf"
    using list_all_takeWhile[of ?P suf] ls by (simp add: k2_def)
  have M1: "\<exists>s. uninitialized_move_n E (map Object xs) 0 i
              (replicate i ?R @ Object x # replicate g ?R) 0 tr' =
     (if k1 = i then
        Returned () (map Object (map ?mf pre @ suf),
                     map Object pre @ Object x # replicate g ?R, tr' @ map Moved pre)
      else Thrown s)" for tr'
    using move_into_gap[of 0 i xs "[]" 0 "replicate i None" E "[]"
        "Object x # replicate g ?R" tr'] pos
    by (simp add: Let_def pre_def suf_def k1_def)
  have M2: "\<exists>s. uninitialized_move_n E (map Object (map ?mf pre @ suf)) i (?n - i)
              (map Object pre @ Object x # replicate g ?R) (Suc i) tr' =
     (if k2 = ?n - i then
        Returned () (map Object (map ?mf xs),
                     map Object (pre @ x # suf) @ replicate (?c - Suc ?n) ?R, tr' @ map Moved suf)
      else Thrown s)" for tr'
  proof -
    let ?ys = "map ?mf pre @ suf"
    have c1: "i + (?n - i) \<le> length ?ys" using lp ls by simp
    have c2: "length (map Object pre @ [Object x]) = Suc i" using lp by simp
    have c3: "?n - i \<le> length (replicate g (None :: 'a option))" using gs(1) by simp
    have zs: "take (?n - i) (drop i ?ys) = suf" using lp ls by simp
    have tk: "take i ?ys = map ?mf pre" using lp by simp
    have dr: "drop (i + (?n - i)) ?ys = []" using lp ls by simp
    have whole: "map ?mf pre @ map ?mf suf = map ?mf xs" by (simp add: xs)
    note raw = move_into_gap[of i "?n - i" ?ys "map Object pre @ [Object x]" "Suc i"
        "replicate g None" E "[]" "[]" tr', OF c1 c2 c3, unfolded Let_def zs tk dr]
    show ?thesis
    proof (cases "k2 = ?n - i")
      case True
      then show ?thesis using raw by (simp add: k2_def whole gs(2))
    next
      case False
      then show ?thesis using raw by (simp add: k2_def)
    qed
  qed
  have D: "destroy_n (map (Object \<circ> ?mf) xs) 0 ?n tr' =
             Some (map (Raw \<circ> Some \<circ> ?mf) xs, tr' @ map (Destroyed \<circ> ?mf) xs)" for tr'
    using destroy_live_prefix[of "map ?mf xs" "[]" tr'] by (simp add: comp_def)
  have head: "Emplace E i (Some x) (vector_with xs [], tr) =
     (case uninitialized_move_n E (map Object xs) 0 i
             (replicate i ?R @ Object x # replicate g ?R) 0
             (tr @ [Allocated ?c, Constructed x]) of
        Thrown (src, dst, tr3) \<Rightarrow>
          Thrown (with_slots (vector_with xs []) src,
                  Deallocate \<lparr>m_buffer = dst, m_capacity = ?c\<rparr> tr3)
      | Returned _ (src, dst, tr3) \<Rightarrow>
          (case uninitialized_move_n E src i (?n - i) dst (Suc i) tr3 of
             Thrown (src', dst', tr4) \<Rightarrow>
               Thrown (with_slots (vector_with xs []) src',
                       Deallocate \<lparr>m_buffer = dst', m_capacity = ?c\<rparr> tr4)
           | Returned _ (src', dst', tr4) \<Rightarrow>
               (case destroy_n src' 0 ?n tr4 of
                  None \<Rightarrow> Undefined
                | Some (old, tr5) \<Rightarrow>
                    Returned i
                      (\<lparr>m_data = \<lparr>m_buffer = dst', m_capacity = ?c\<rparr>, m_size = Suc ?n\<rparr>,
                       Deallocate \<lparr>m_buffer = old, m_capacity = ?n\<rparr> tr5))
           | Undefined \<Rightarrow> Undefined)
      | Undefined \<Rightarrow> Undefined)"
    using mv pos n0 ic
    by (simp add: Emplace_def d2 RawMemory_new_allocates[OF al2] Let_def replicate_update
          RawMemory_Swap_eq with_slots_def g_def
          del: destroy_n.simps cong: outcome.case_cong option.case_cong)
  let ?t2 = "tr @ [Allocated ?c, Constructed x]"
  from M1[of ?t2] obtain s1 where
    m1: "uninitialized_move_n E (map Object xs) 0 i
              (replicate i ?R @ Object x # replicate g ?R) 0 ?t2 =
     (if k1 = i then
        Returned () (map Object (map ?mf pre @ suf),
                     map Object pre @ Object x # replicate g ?R, ?t2 @ map Moved pre)
      else Thrown s1)"
    by blast
  from M2[of "?t2 @ map Moved pre"] obtain s2 where
    m2: "uninitialized_move_n E (map Object (map ?mf pre @ suf)) i (?n - i)
              (map Object pre @ Object x # replicate g ?R) (Suc i) (?t2 @ map Moved pre) =
     (if k2 = ?n - i then
        Returned () (map Object (map ?mf xs),
                     map Object (pre @ x # suf) @ replicate (?c - Suc ?n) ?R,
                     (?t2 @ map Moved pre) @ map Moved suf)
      else Thrown s2)"
    by blast
  have R: "\<exists>s. Emplace E i (Some x) (vector_with xs [], tr) =
           (if list_all ?P xs then
              Returned i
                (vector_of (pre @ x # suf) ?c,
                 tr @ [Allocated ?c, Constructed x] @ map Moved xs
                    @ map Destroyed (map ?mf xs) @ [Released ?n []])
            else Thrown s)"
  proof (cases "k1 = i")
    case False
    then show ?thesis unfolding head m1 all using k1 by (auto split: prod.splits)
  next
    case T1: True
    show ?thesis
    proof (cases "k2 = ?n - i")
      case False
      then show ?thesis
        unfolding head m1 all using T1 k2 m2 by (auto split: prod.splits)
    next
      case True
      have mm: "map Moved pre @ map Moved suf = map Moved xs" by (simp add: xs)
      show ?thesis
        unfolding head m1 all using T1 True k1 k2 n0 lp ls mm m2 pos
        by (simp add: D Deallocate_def vector_of_def del: destroy_n.simps)
    qed
  qed
  show ?thesis
    using R unfolding c by (simp only: pre_def suf_def)
qed

lemma Emplace_at_end: "Emplace E (m_size v) a (v, tr) = EmplaceBack E a (v, tr)"
  by (simp add: Emplace_def)

lemma Emplace_None: "Emplace E p None s \<noteq> Returned i s'"
proof (cases s)
  case (Pair v tr)
  show ?thesis
  proof (cases "p = m_size v")
    case True
    then show ?thesis using Pair EmplaceBack_None[of E "(v, tr)" i s'] by (simp add: Emplace_def)
  next
    case False
    then show ?thesis using Pair by (auto simp: Emplace_def split: option.splits)
  qed
qed

lemma uninitialized_copy_from_room:
  "uninitialized_copy_from E src first n dst d_first cur tr = Returned u s \<Longrightarrow>
   (n = 0 \<or> cur + n \<le> length dst) \<and> length (fst s) = length dst"
proof (induction n arbitrary: first dst cur tr)
  case 0
  then show ?case by auto
next
  case (Suc n)
  from Suc.prems obtain x where
    x: "object_at src first = Some x" "cur < length dst" "\<not> copy_throws E x"
    and r: "uninitialized_copy_from E src (Suc first) n (dst[cur := Object x]) d_first (Suc cur)
              (tr @ [Copied x]) = Returned u s"
    by (auto simp: rolled_back_def split: option.splits if_splits)
  from Suc.IH[OF r] x(2) show ?case by auto
qed

lemma uninitialized_move_from_room:
  "uninitialized_move_from E src first n dst d_first cur tr = Returned u s \<Longrightarrow>
   (n = 0 \<or> cur + n \<le> length dst) \<and> length (fst (snd s)) = length dst"
proof (induction n arbitrary: first src dst cur tr)
  case 0
  then show ?case by auto
next
  case (Suc n)
  from Suc.prems obtain x where
    x: "object_at src first = Some x" "cur < length dst" "\<not> move_fails E x"
    and r: "uninitialized_move_from E (src[first := Object (moved_from E x)]) (Suc first) n
              (dst[cur := Object x]) d_first (Suc cur) (tr @ [Moved x]) = Returned u s"
    by (auto split: option.splits if_splits)
  from Suc.IH[OF r] x(2) show ?case by auto
qed

lemma Emplace_not_allocates:
  assumes na: "\<not> allocates E (grown (length xs))" and pos: "i < length xs"
  shows "Emplace E i a (vector_with xs [], tr) \<noteq> Returned j s'"
proof (cases "RawMemory_new E (if length xs = 0 then 1 else size_t_mul (length xs) 2) tr")
  case None
  have "0 < length xs" using pos by auto
  with None have "RawMemory_new E (size_t_mul (length xs) 2) tr = None" by simp
  moreover have "xs \<noteq> []" using pos by auto
  ultimately show ?thesis using pos by (simp add: Emplace_def)
next
  case (Some p)
  obtain d tr1 where p: "p = (d, tr1)" by (cases p)
  have n0: "0 < length xs" using pos by auto
  have "\<not> fits E (grown (length xs))"
  proof
    assume f: "fits E (grown (length xs))"
    with na have b: "bad_alloc E (grown (length xs) * sizeof_T E)" by (simp add: allocates_def)
    have "grown (length xs) \<noteq> 0" by (simp add: grown_def)
    from RawMemory_new_bad_alloc[OF f this b, of tr]
    have "RawMemory_new E (grown (length xs)) tr = None" .
    with Some show False unfolding RawMemory_new_doubled[OF f] by simp
  qed
  from RawMemory_new_wrapped[OF this Some[unfolded p]]
  have small: "length (m_buffer d) \<le> length xs" .
  have new: "RawMemory_new E (size_t_mul (length xs) 2) tr = Some (d, tr1)" using Some p n0 by simp
  show ?thesis
  proof
    assume ret: "Emplace E i a (vector_with xs [], tr) = Returned j s'"
    then obtain x where a: "a = Some x" using Emplace_None[of E i "(vector_with xs [], tr)" j s']
      by (cases a) auto
    let ?buf1 = "(m_buffer d)[i := Object x]"
    let ?tr2 = "tr1 @ [Constructed x]"
    show False
    proof (cases "migrate_by_move E")
      case True
      from ret a pos n0 True new obtain u1 s1 u2 s2 where
        "uninitialized_move_n E (map Object xs) 0 i ?buf1 0 ?tr2 = Returned u1 s1"
        "uninitialized_move_n E (fst s1) i (length xs - i) (fst (snd s1)) (Suc i) (snd (snd s1))
           = Returned u2 s2"
        by (auto simp: Emplace_def Let_def split: if_splits outcome.splits prod.splits)
      then have "length (fst (snd s1)) = length ?buf1"
        "Suc i + (length xs - i) \<le> length (fst (snd s1))"
        using uninitialized_move_from_room[of E "map Object xs" 0 i ?buf1 0 0 ?tr2 u1 s1]
          uninitialized_move_from_room[of E "fst s1" i "length xs - i" "fst (snd s1)" "Suc i"
            "Suc i" "snd (snd s1)" u2 s2] pos
        by (auto simp: uninitialized_move_n_def)
      then show False using small pos by simp
    next
      case False
      from ret a pos n0 False new obtain u1 s1 u2 s2 where
        "uninitialized_copy_n E (map Object xs) 0 i ?buf1 0 ?tr2 = Returned u1 s1"
        "uninitialized_copy_n E (map Object xs) i (length xs - i) (fst s1) (Suc i) (snd s1)
           = Returned u2 s2"
        by (auto simp: Emplace_def Let_def split: if_splits outcome.splits prod.splits option.splits)
      then have "length (fst s1) = length ?buf1"
        "Suc i + (length xs - i) \<le> length (fst s1)"
        using uninitialized_copy_from_room[of E "map Object xs" 0 i ?buf1 0 0 ?tr2 u1 s1]
          uninitialized_copy_from_room[of E "map Object xs" i "length xs - i" "fst s1" "Suc i"
            "Suc i" "snd s1" u2 s2] pos
        by (auto simp: uninitialized_copy_n_def)
      then show False using small pos by simp
    qed
  qed
qed

lemma split_at_back:
  assumes "p < length xs"
  shows "xs = take p xs @ drop p (butlast xs) @ [last xs]"
    and "drop p xs = drop p (butlast xs) @ [last xs]"
proof -
  have ne: "xs \<noteq> []" using assms by auto
  have "drop p xs = drop p (butlast xs @ [last xs])" using ne by simp
  also have "\<dots> = drop p (butlast xs) @ [last xs]" using assms by simp
  finally show d: "drop p xs = drop p (butlast xs) @ [last xs]" .
  have "xs = take p xs @ drop p xs" by simp
  then show "xs = take p xs @ drop p (butlast xs) @ [last xs]" using d by simp
qed

lemma Emplace_room:
  assumes p: "p < length xs"
  shows "\<exists>s. Emplace E p (Some x) (vector_with xs (r # rs), tr) =
           (if \<not> move_fails E (last xs)
               \<and> list_all (\<lambda>y. \<not> move_assign_throws E y) (drop p (butlast xs))
               \<and> \<not> move_assign_throws E x
            then Returned p
                   (vector_with (take p xs @ x # drop p xs) rs,
                    tr @ [Constructed x, Moved (last xs), Destroyed (moved_from E x)])
            else Thrown s)"
proof -
  let ?pre = "take p xs" and ?mid = "drop p (butlast xs)" and ?lst = "last xs"
  note sp = split_at_back[OF p]
  have lp: "length ?pre = p" using p by simp
  have e1: "?pre @ ?mid @ [?lst] = xs" using sp(1) by simp
  have e2: "?pre @ x # ?mid @ [?lst] = take p xs @ x # drop p xs" using sp(2) by simp
  from Emplace_room_decomposed[of E ?pre x ?mid ?lst r rs tr] obtain s where
    "Emplace E (length ?pre) (Some x) (vector_with (?pre @ ?mid @ [?lst]) (r # rs), tr) =
       (if \<not> move_fails E ?lst \<and> list_all (\<lambda>y. \<not> move_assign_throws E y) ?mid
           \<and> \<not> move_assign_throws E x
        then Returned (length ?pre)
               (vector_with (?pre @ x # ?mid @ [?lst]) rs,
                tr @ [Constructed x, Moved ?lst, Destroyed (moved_from E x)])
        else Thrown s)"
    by blast
  then show ?thesis unfolding lp e1 e2 by blast
qed

lemma Emplace_returned:
  assumes p: "p \<le> length xs"
    and ret: "Emplace E p a (vector_with xs rs, tr) = Returned i (v', tr')"
  shows "\<exists>x. a = Some x \<and> i = p
             \<and> v' = (if rs = [] then vector_of (take p xs @ x # drop p xs) (grown (length xs))
                     else vector_with (take p xs @ x # drop p xs) (tl rs))"
proof (cases "p = length xs")
  case True
  then have "EmplaceBack E a (vector_with xs rs, tr) = Returned i (v', tr')"
    using ret Emplace_at_end[of E "vector_with xs rs" a tr] by simp
  from EmplaceBack_returned[OF this] show ?thesis using True by auto
next
  case False
  then have lt: "p < length xs" using p by simp
  show ?thesis
  proof (cases a)
    case None
    then show ?thesis using ret Emplace_None[of E p "(vector_with xs rs, tr)"] by auto
  next
    case (Some x)
    show ?thesis
    proof (cases rs)
      case Nil
      show ?thesis
      proof (cases "allocates E (grown (length xs))")
        case False
        then show ?thesis using ret Nil Emplace_not_allocates[OF False lt, of a tr] by simp
      next
        case al: True
        show ?thesis
        proof (cases "migrate_by_move E")
          case mv: True
          from Emplace_grow_move[OF mv al lt, of x tr] show ?thesis
            using ret Some Nil by (auto split: if_splits)
        next
          case nm: False
          from Emplace_grow_copy[OF nm al lt, of x tr] show ?thesis
            using ret Some Nil by (auto simp: Let_def split: if_splits)
        qed
      qed
    next
      case (Cons r rs')
      from Emplace_room[OF lt, of E x r rs' tr] show ?thesis
        using ret Some Cons by (auto split: if_splits)
    qed
  qed
qed

lemma Erase_returned:
  assumes p: "p < length zs"
    and ret: "Erase E p (vector_with zs rs, tr) = Returned i (v', tr')"
  shows "i = p \<and> (\<exists>r. v' = vector_with (take p zs @ drop (Suc p) zs) (r # rs))"
proof -
  have zs: "zs = take p zs @ zs ! p # drop (Suc p) zs" using p by (rule id_take_nth_drop)
  have lp: "length (take p zs) = p" using p by simp
  from Erase_decomposed[of E "take p zs" "zs ! p" "drop (Suc p) zs" rs tr] show ?thesis
    unfolding lp zs[symmetric] using ret by (auto split: if_splits)
qed

lemma list_all_never: "(\<forall>x. P x) \<Longrightarrow> list_all P xs"
  by (simp add: list_all_iff)

lemma EmplaceBack_total_with:
  assumes al: "rs = [] \<longrightarrow> allocates E (grown (length xs))"
    and ok: "\<forall>x. \<not> copy_throws E x \<and> \<not> move_fails E x"
  shows "\<exists>s'. EmplaceBack E (Some x) (vector_with xs rs, tr) = Returned (length xs) s'"
proof (cases rs)
  case (Cons r rs')
  then show ?thesis by (simp add: EmplaceBack_room)
next
  case Nil
  then have a: "allocates E (grown (length xs))" using al by simp
  show ?thesis
  proof (cases "migrate_by_move E")
    case mv: True
    show ?thesis
      using EmplaceBack_grow_move[OF mv a, of x tr] ok Nil
      by (simp add: Let_def takeWhile_all)
  next
    case nm: False
    show ?thesis
      using EmplaceBack_grow_copy[OF nm a, of x tr] ok Nil
      by (simp add: Let_def takeWhile_all)
  qed
qed

lemma Emplace_total:
  assumes p: "p \<le> length xs"
    and al: "rs = [] \<longrightarrow> allocates E (grown (length xs))"
    and ok: "\<forall>x. \<not> copy_throws E x \<and> \<not> move_fails E x \<and> \<not> move_assign_throws E x"
  shows "\<exists>s'. Emplace E p (Some x) (vector_with xs rs, tr) = Returned p s'"
proof (cases "p = length xs")
  case True
  from ok have "\<forall>x. \<not> copy_throws E x \<and> \<not> move_fails E x" by simp
  from EmplaceBack_total_with[OF al this, of x tr] show ?thesis
    using True Emplace_at_end[of E "vector_with xs rs" "Some x" tr] by simp
next
  case False
  then have lt: "p < length xs" using p by simp
  have c: "list_all (\<lambda>y. \<not> copy_throws E y) zs" for zs using ok by (simp add: list_all_iff)
  have m: "list_all (\<lambda>y. \<not> move_fails E y) zs" for zs using ok by (simp add: list_all_iff)
  have a: "list_all (\<lambda>y. \<not> move_assign_throws E y) zs" for zs using ok by (simp add: list_all_iff)
  show ?thesis
  proof (cases rs)
    case Nil
    then have na: "allocates E (grown (length xs))" using al by simp
    show ?thesis
    proof (cases "migrate_by_move E")
      case mv: True
      from Emplace_grow_move[OF mv na lt, of x tr] show ?thesis using Nil m by auto
    next
      case nm: False
      have k: "length (takeWhile (\<lambda>y. \<not> copy_throws E y) zs) = length zs" for zs
        using c[of zs] by (simp add: list_all_takeWhile)
      from Emplace_grow_copy[OF nm na lt, of x tr] show ?thesis
        using Nil lt by (simp add: Let_def k)
    qed
  next
    case (Cons r rs')
    from Emplace_room[OF lt, of E x r rs' tr] show ?thesis using Cons ok a by auto
  qed
qed

lemma Erase_total:
  assumes p: "p < length zs"
    and ok: "\<forall>x. \<not> move_assign_throws E x"
  shows "\<exists>s'. Erase E p (vector_with zs rs, tr) = Returned p s'"
proof -
  have zs: "zs = take p zs @ zs ! p # drop (Suc p) zs" using p by (rule id_take_nth_drop)
  have lp: "length (take p zs) = p" using p by simp
  have a: "list_all (\<lambda>y. \<not> move_assign_throws E y) (drop (Suc p) zs)"
    using ok by (simp add: list_all_iff)
  from Erase_decomposed[of E "take p zs" "zs ! p" "drop (Suc p) zs" rs tr] show ?thesis
    unfolding lp zs[symmetric] using a by auto
qed

lemma Emplace_then_Erase:
  assumes inv: "Vector_inv v" and p: "p \<le> m_size v"
    and ins: "Emplace E p a (v, tr) = Returned i (v1, tr1)"
    and era: "Erase E p (v1, tr1) = Returned j (v2, tr2)"
  shows "i = p \<and> j = p \<and> map Some (elems v1) = map Some (take p (elems v)) @ a # map Some (drop p (elems v))
         \<and> elems v2 = elems v \<and> m_size v2 = m_size v
         \<and> Capacity v2 = (if m_size v = Capacity v then grown (Capacity v) else Capacity v)"
proof -
  let ?xs = "elems v" and ?rs = "spare v"
  have v: "v = vector_with ?xs ?rs" using inv by (rule Vector_inv_is_vector_with)
  have len: "length ?xs = m_size v" using inv by (rule length_elems)
  have cap: "Capacity v = length ?xs + length ?rs" using arg_cong[OF v, of Capacity] by simp
  have pl: "p \<le> length ?xs" using p len by simp
  have ins': "Emplace E p a (vector_with ?xs ?rs, tr) = Returned i (v1, tr1)" using ins v by simp
  from Emplace_returned[OF pl ins'] obtain x where
    x: "a = Some x" "i = p"
       "v1 = (if ?rs = [] then vector_of (take p ?xs @ x # drop p ?xs) (grown (length ?xs))
              else vector_with (take p ?xs @ x # drop p ?xs) (tl ?rs))"
    by blast
  let ?zs = "take p ?xs @ x # drop p ?xs"
  let ?cap1 = "if m_size v = Capacity v then grown (Capacity v) else Capacity v"
  have lz: "length ?zs = Suc (length ?xs)" using pl by simp
  have pz: "p < length ?zs" using pl lz by simp
  obtain rs1 where v1: "v1 = vector_with ?zs rs1" and c1: "length ?zs + length rs1 = ?cap1"
  proof (cases "?rs = []")
    case True
    then have full: "m_size v = Capacity v" using cap len by simp
    have "length ?zs \<le> grown (length ?xs)" using lz grown_gt[of "length ?xs"] by simp
    then have "v1 = vector_with ?zs (replicate (grown (length ?xs) - length ?zs) None)"
      "length ?zs + length (replicate (grown (length ?xs) - length ?zs) (None :: 'a option))
         = grown (length ?xs)"
      using x(3) True by (simp_all add: vector_of_with del: length_append)
    then show ?thesis using that full len by simp
  next
    case False
    then have "m_size v \<noteq> Capacity v" "length ?zs + length (tl ?rs) = Capacity v"
      using cap len lz by (simp_all del: length_append)
    then show ?thesis using that[of "tl ?rs"] x(3) False by simp
  qed
  have era': "Erase E p (vector_with ?zs rs1, tr1) = Returned j (v2, tr2)" using era v1 by simp
  from Erase_returned[OF pz era'] obtain r where
    j: "j = p" and v2: "v2 = vector_with (take p ?zs @ drop (Suc p) ?zs) (r # rs1)"
    by blast
  have undo: "take p ?zs @ drop (Suc p) ?zs = ?xs" using pl by simp
  have e1: "elems v1 = ?zs" using v1 by simp
  have "Capacity v2 = length ?xs + Suc (length rs1)" using v2 undo by simp
  then have c2: "Capacity v2 = ?cap1" using c1 lz by simp
  show ?thesis using x(1,2) j v2 undo len e1 c2 by simp
qed

text \<open>
  C7. On a vector that satisfies the invariant and for a position \<open>p\<close> up to its size: when
  \<open>Insert\<close> of a value at \<open>p\<close> returns and \<open>Erase\<close> at \<open>p\<close> then returns, the value was
  inserted before the element at \<open>p\<close>, and after the two calls the elements and the size
  are those before them. The capacity is the one before them when there was room, and the
  grown one when the vector was full. This holds for \<^verbatim>\<open>Insert(pos, const T&)\<close> and for
  \<^verbatim>\<open>Insert(pos, T&&)\<close>, and with either of them both calls return when no operation of
  the element type throws and, for a full vector, the allocation of the grown buffer
  succeeds.
\<close>

theorem Insert_then_Erase:
  assumes "Vector_inv v" "p \<le> m_size v"
  shows "(Insert E p val (v, tr) = Returned i (v1, tr1) \<and> Erase E p (v1, tr1) = Returned j (v2, tr2)
            \<longrightarrow> i = p \<and> j = p \<and> elems v1 = take p (elems v) @ val # drop p (elems v)
              \<and> elems v2 = elems v \<and> m_size v2 = m_size v
              \<and> Capacity v2 = (if m_size v = Capacity v then grown (Capacity v) else Capacity v))
       \<and> (Insert_rvalue E p val (v, tr) = Returned i (v1, tr1)
            \<and> Erase E p (v1, tr1) = Returned j (v2, tr2)
            \<longrightarrow> i = p \<and> j = p \<and> elems v1 = take p (elems v) @ val # drop p (elems v)
              \<and> elems v2 = elems v \<and> m_size v2 = m_size v
              \<and> Capacity v2 = (if m_size v = Capacity v then grown (Capacity v) else Capacity v))
       \<and> ((m_size v = Capacity v \<longrightarrow> allocates E (grown (m_size v)))
            \<and> (\<forall>x. \<not> copy_throws E x \<and> \<not> move_fails E x \<and> \<not> move_assign_throws E x)
            \<longrightarrow> (\<exists>w1 t1 w2 t2. Insert E p val (v, tr) = Returned p (w1, t1)
                                 \<and> Erase E p (w1, t1) = Returned p (w2, t2))
              \<and> (\<exists>w1 t1 w2 t2. Insert_rvalue E p val (v, tr) = Returned p (w1, t1)
                                 \<and> Erase E p (w1, t1) = Returned p (w2, t2)))"
proof -
  let ?goal = "i = p \<and> j = p \<and> elems v1 = take p (elems v) @ val # drop p (elems v)
              \<and> elems v2 = elems v \<and> m_size v2 = m_size v
              \<and> Capacity v2 = (if m_size v = Capacity v then grown (Capacity v) else Capacity v)"
  have either: ?goal
    if ins: "Emplace E p a (v, tr) = Returned i (v1, tr1)"
      and era: "Erase E p (v1, tr1) = Returned j (v2, tr2)"
      and a: "a = None \<or> a = Some val" for a
  proof -
    from Emplace_then_Erase[OF assms ins era]
    have r: "i = p \<and> j = p
        \<and> map Some (elems v1) = map Some (take p (elems v)) @ a # map Some (drop p (elems v))
        \<and> elems v2 = elems v \<and> m_size v2 = m_size v
        \<and> Capacity v2 = (if m_size v = Capacity v then grown (Capacity v) else Capacity v)"
      by blast
    have some: "a = Some val"
    proof (rule ccontr)
      assume "a \<noteq> Some val"
      then have "a = None" using a by simp
      with r have "map Some (elems v1) = map Some (take p (elems v)) @ None # map Some (drop p (elems v))"
        by simp
      then have "None \<in> set (map Some (elems v1))" by simp
      then show False by auto
    qed
    from r some have "map Some (elems v1) = map Some (take p (elems v) @ val # drop p (elems v))"
      by simp
    then have "elems v1 = take p (elems v) @ val # drop p (elems v)"
      by (simp only: inj_map_eq_map[OF inj_Some])
    with r show ?thesis by blast
  qed
  have lvalue: ?goal
    if "Insert E p val (v, tr) = Returned i (v1, tr1) \<and> Erase E p (v1, tr1) = Returned j (v2, tr2)"
    using that either[of "if copy_throws E val then None else Some val"]
    by (simp add: Insert_def)
  have rvalue: ?goal
    if "Insert_rvalue E p val (v, tr) = Returned i (v1, tr1)
      \<and> Erase E p (v1, tr1) = Returned j (v2, tr2)"
    using that either[of "if move_fails E val then None else Some val"]
    by (simp add: Insert_rvalue_def)
  have total: "(\<exists>w1 t1 w2 t2. Insert E p val (v, tr) = Returned p (w1, t1)
                                 \<and> Erase E p (w1, t1) = Returned p (w2, t2))
              \<and> (\<exists>w1 t1 w2 t2. Insert_rvalue E p val (v, tr) = Returned p (w1, t1)
                                 \<and> Erase E p (w1, t1) = Returned p (w2, t2))"
    if b: "(m_size v = Capacity v \<longrightarrow> allocates E (grown (m_size v)))
      \<and> (\<forall>x. \<not> copy_throws E x \<and> \<not> move_fails E x \<and> \<not> move_assign_throws E x)"
  proof -
    let ?xs = "elems v" and ?rs = "spare v"
    have v: "v = vector_with ?xs ?rs" using assms(1) by (rule Vector_inv_is_vector_with)
    have len: "length ?xs = m_size v" using assms(1) by (rule length_elems)
    have cap: "Capacity v = length ?xs + length ?rs" using arg_cong[OF v, of Capacity] by simp
    have pl: "p \<le> length ?xs" using assms(2) len by simp
    from b have ok: "\<forall>x. \<not> copy_throws E x \<and> \<not> move_fails E x \<and> \<not> move_assign_throws E x"
      by simp
    have al: "?rs = [] \<longrightarrow> allocates E (grown (length ?xs))" using b cap len by simp
    from Emplace_total[OF pl al ok, of val tr] obtain w1 t1 where
      e: "Emplace E p (Some val) (vector_with ?xs ?rs, tr) = Returned p (w1, t1)"
      by (metis surj_pair)
    let ?zs = "take p ?xs @ val # drop p ?xs"
    from Emplace_returned[OF pl e]
    have w: "w1 = (if ?rs = [] then vector_of ?zs (grown (length ?xs))
                   else vector_with ?zs (tl ?rs))"
      by simp
    have lz: "length ?zs \<le> grown (length ?xs)" using grown_gt[of "length ?xs"] pl by simp
    have "Vector_inv w1" "elems w1 = ?zs"
      using w Vector_inv_vector_of[OF lz] Vector_inv_vector_with[of ?zs "tl ?rs"]
      by (simp_all split: if_splits)
    then obtain rs1 where w1: "w1 = vector_with ?zs rs1"
      using Vector_inv_is_vector_with[of w1] by metis
    have pz: "p < length (take p ?xs @ val # drop p ?xs)" using pl by simp
    from ok have ma: "\<forall>x. \<not> move_assign_throws E x" by simp
    from Erase_total[OF pz ma, of rs1 t1] obtain w2 t2 where
      "Erase E p (w1, t1) = Returned p (w2, t2)"
      using w1 by (metis surj_pair)
    with e have both: "\<exists>w1 t1 w2 t2. Emplace E p (Some val) (v, tr) = Returned p (w1, t1)
                                 \<and> Erase E p (w1, t1) = Returned p (w2, t2)"
      using v by metis
    from both ok show ?thesis by (simp add: Insert_def Insert_rvalue_def)
  qed
  from lvalue rvalue total show ?thesis by blast
qed

theorem Insert_then_Erase_witness:
  "Insert Obj 1 5 (vector_of [1, 2] 2, []) =
     Returned 1 (vector_of [1, 5, 2] 4,
       [Allocated 4, Constructed 5, Copied 1, Copied 2, Destroyed 1, Destroyed 2, Released 2 []])
   \<and> Erase Obj 1 (vector_of [1, 5, 2] 4,
       [Allocated 4, Constructed 5, Copied 1, Copied 2, Destroyed 1, Destroyed 2, Released 2 []]) =
     Returned 1 (vector_with [1, 2] [Some 0, None],
       [Allocated 4, Constructed 5, Copied 1, Copied 2, Destroyed 1, Destroyed 2, Released 2 [],
        Destroyed 0])
   \<and> Insert_rvalue Obj 1 5 (vector_of [1, 2] 4, []) =
     Returned 1 (vector_of [1, 5, 2] 4, [Constructed 5, Moved 2, Destroyed 0])
   \<and> Erase Obj 1 (vector_of [1, 5, 2] 4, [Constructed 5, Moved 2, Destroyed 0]) =
     Returned 1 (vector_with [1, 2] [Some 0, None], [Constructed 5, Moved 2, Destroyed 0, Destroyed 0])
   \<and> elems (vector_with [1, 2 :: nat] [Some 0, None]) = [1, 2]
   \<and> m_size (vector_with [1, 2 :: nat] [Some 0, None]) = 2
   \<and> Capacity (vector_with [1, 2 :: nat] [Some 0, None]) = 4
   \<and> allocates NothrowObj 4
   \<and> (\<exists>w1 t1 w2 t2. Insert NothrowObj 1 5 (vector_of [1, 2] 2, []) = Returned 1 (w1, t1)
                        \<and> Erase NothrowObj 1 (w1, t1) = Returned 1 (w2, t2))
   \<and> (\<exists>w1 t1 w2 t2. Insert_rvalue NothrowObj 1 5 (vector_of [1, 2] 2, []) = Returned 1 (w1, t1)
                        \<and> Erase NothrowObj 1 (w1, t1) = Returned 1 (w2, t2))"
proof -
  let ?v = "vector_of [1, 2 :: nat] 2" and ?v1 = "vector_of [1, 5, 2 :: nat] 4"
  let ?u = "vector_of [1, 2 :: nat] 4"
  let ?v2 = "vector_with [1, 2 :: nat] [Some 0, None]"
  let ?t1 = "[Allocated 4, Constructed 5, Copied 1, Copied 2, Destroyed 1, Destroyed 2,
              Released 2 ([] :: nat list)]"
  let ?t2 = "?t1 @ [Destroyed 0]"
  let ?s1 = "[Constructed 5, Moved 2, Destroyed (0 :: nat)]"
  let ?s2 = "?s1 @ [Destroyed 0]"
  have h: "Vector_inv ?v" "1 \<le> m_size ?v" and hu: "Vector_inv ?u" "1 \<le> m_size ?u"
    by (simp_all add: Vector_inv_vector_of)
  have ev: "Insert Obj 1 5 (?v, []) = Returned 1 (?v1, ?t1)
      \<and> Erase Obj 1 (?v1, ?t1) = Returned 1 (?v2, ?t2)"
    by code_simp
  have ev': "Insert_rvalue Obj 1 5 (?u, []) = Returned 1 (?v1, ?s1)
      \<and> Erase Obj 1 (?v1, ?s1) = Returned 1 (?v2, ?s2)"
    by code_simp
  have a4: "allocates NothrowObj 4" by (simp add: allocates_def fits_def NothrowObj_def)
  have benign: "(m_size ?v = Capacity ?v \<longrightarrow> allocates NothrowObj (grown (m_size ?v)))
      \<and> (\<forall>x. \<not> copy_throws NothrowObj x \<and> \<not> move_fails NothrowObj x
               \<and> \<not> move_assign_throws NothrowObj x)"
    using a4 by (simp add: NothrowObj_def move_fails_def)
  note r = Insert_then_Erase[OF h, of Obj 5 "[]" 1 ?v1 ?t1 1 ?v2 ?t2, THEN conjunct1, rule_format, OF ev]
  note r' = Insert_then_Erase[OF hu, of Obj 5 "[]" 1 ?v1 ?s1 1 ?v2 ?s2, THEN conjunct2,
      THEN conjunct1, rule_format, OF ev']
  note t = Insert_then_Erase[OF h, of NothrowObj 5 "[]", THEN conjunct2, THEN conjunct2,
      rule_format, OF benign]
  have obs: "elems ?v2 = [1, 2]" "m_size ?v2 = 2" "Capacity ?v2 = 4"
    using r r' by simp_all
  from ev ev' obs a4 t show ?thesis by simp
qed

section \<open>The invariant\<close>

lemma copy_n_eq:
  "k + n \<le> length ys \<Longrightarrow> k + n \<le> length xs \<Longrightarrow>
   \<exists>s. copy_n E (map Object ys @ r1) k n (map Object xs @ r2) k =
         (if list_all (\<lambda>y. \<not> copy_assign_throws E y) (take n (drop k ys))
          then Returned () (map Object (take k xs @ take n (drop k ys) @ drop (k + n) xs) @ r2)
          else Thrown s)"
proof (induction n arbitrary: k xs)
  case 0
  then show ?case by simp
next
  case (Suc n)
  let ?y = "ys ! k"
  have ky: "k < length ys" and kx: "k < length xs" using Suc.prems by simp_all
  have at: "object_at (map Object ys @ r1) k = Some ?y"
    using ky by (simp add: object_at_def nth_append)
  have at2: "object_at (map Object xs @ r2) k = Some (xs ! k)"
    using kx by (simp add: object_at_def nth_append)
  have upd: "(map Object xs @ r2)[k := Object ?y] = map Object (xs[k := ?y]) @ r2"
    using kx by (simp add: list_update_append map_update)
  have dk: "take (Suc n) (drop k ys) = ?y # take n (drop (Suc k) ys)"
    using ky by (simp add: Cons_nth_drop_Suc[symmetric])
  show ?case
  proof (cases "copy_assign_throws E ?y")
    case True
    then show ?thesis by (simp add: at at2 dk)
  next
    case False
    have l1: "Suc k + n \<le> length ys" and l2: "Suc k + n \<le> length (xs[k := ?y])"
      using Suc.prems by simp_all
    from Suc.IH[OF l1 l2] obtain s where
      ih: "copy_n E (map Object ys @ r1) (Suc k) n (map Object (xs[k := ?y]) @ r2) (Suc k) =
         (if list_all (\<lambda>y. \<not> copy_assign_throws E y) (take n (drop (Suc k) ys))
          then Returned () (map Object (take (Suc k) (xs[k := ?y]) @ take n (drop (Suc k) ys)
                                       @ drop (Suc k + n) (xs[k := ?y])) @ r2)
          else Thrown s)"
      by blast
    have tk: "take (Suc k) (xs[k := ?y]) = take k xs @ [?y]"
      using kx by (simp add: take_Suc_conv_app_nth)
    have "copy_n E (map Object ys @ r1) k (Suc n) (map Object xs @ r2) k =
          copy_n E (map Object ys @ r1) (Suc k) n (map Object (xs[k := ?y]) @ r2) (Suc k)"
      using False by (simp add: at at2 upd del: list_update.simps)
    then show ?thesis
      unfolding ih using False by (auto simp: dk tk)
  qed
qed

lemma copy_assign_in_place_returned:
  assumes t: "st this = vector_with xs rs"
    and r: "st rhs = vector_with ys rs'"
    and room: "length ys \<le> length xs + length rs" and ne: "this \<noteq> rhs"
    and ret: "copy_assign E this rhs (st, tr) = Returned () (st', tr')"
  shows "\<exists>zs. st' = st(this := vector_with ys zs)"
proof (cases "length ys < length xs")
  case True
  let ?n = "length ys"
  let ?r2 = "map Raw rs"
  from copy_n_eq[of 0 ?n ys xs E "map Raw rs'" ?r2] True obtain s where
    cn: "copy_n E (map Object ys @ map Raw rs') 0 ?n (map Object xs @ ?r2) 0 =
           (if list_all (\<lambda>y. \<not> copy_assign_throws E y) ys
            then Returned () (map Object (ys @ drop ?n xs) @ ?r2) else Thrown s)"
    by (auto cong: if_cong)
  have d: "destroy_n (map Object (ys @ drop ?n xs) @ ?r2) ?n (length xs - ?n) tr =
             Some (map Object ys @ map Raw (map Some (drop ?n xs) @ rs),
                   tr @ map Destroyed (drop ?n xs))"
    using True
    by (subst destroy_n_eq)
      (simp_all add: objects_def all_live_def list_all_iff drop_map take_map comp_def)
  have "st' = st(this := vector_with ys (map Some (drop ?n xs) @ rs))"
    using ret ne True room t r cn d
    by (auto simp: copy_assign_def with_slots_def vector_with_def slots_of_def Capacity_def
          split: if_splits)
  then show ?thesis by blast
next
  case False
  let ?n = "length xs"
  let ?r1 = "map Raw rs'"
  let ?r2 = "map Raw rs"
  have le: "?n \<le> length ys" using False by simp
  from copy_n_eq[of 0 ?n ys xs E ?r1 ?r2] le obtain s where
    cn: "copy_n E (map Object ys @ ?r1) 0 ?n (map Object xs @ ?r2) 0 =
           (if list_all (\<lambda>y. \<not> copy_assign_throws E y) (take ?n ys)
            then Returned () (map Object (take ?n ys) @ ?r2) else Thrown s)"
    by (auto cong: if_cong)
  have c1: "?n + (length ys - ?n) \<le> length ys" using le by simp
  have c2: "length (map Object (take ?n ys)) = ?n" using le by simp
  have c3: "length ys - ?n \<le> length rs" using room by simp
  have tk: "take (length ys - ?n) (drop ?n ys) = drop ?n ys" by simp
  note uc = copy_into_gap[of ?n "length ys - ?n" ys "map Object (take ?n ys)" ?n rs E ?r1 "[]" tr,
      OF c1 c2 c3, unfolded Let_def tk]
  have whole: "map Object (take ?n ys) @ map Object (drop ?n ys) = map Object ys"
    by (rule map_take_drop)
  have "st' = st(this := vector_with ys (drop (length ys - ?n) rs))"
    using ret ne False room t r cn uc le whole
    by (auto simp: copy_assign_def with_slots_def vector_with_def slots_of_def Capacity_def
          split: if_splits)
  then show ?thesis by blast
qed

lemma Reserve_returned:
  assumes f: "fits E n"
    and ret: "Reserve E n (vector_with xs rs, tr) = Returned () (v1, tr1)"
  shows "v1 = (if n \<le> length xs + length rs then vector_with xs rs else vector_of xs n)"
proof (cases "n \<le> length xs + length rs")
  case True
  then show ?thesis using ret by (simp add: Reserve_enough)
next
  case False
  then have gt: "length xs + length rs < n" by simp
  show ?thesis
  proof (cases "bad_alloc E (n * sizeof_T E)")
    case True
    from RawMemory_new_bad_alloc[OF f _ True, of tr] gt
    have "RawMemory_new E n tr = None" by simp
    then show ?thesis using ret gt by (simp add: Reserve_def)
  next
    case nb: False
    then have al: "allocates E n" using f by (simp add: allocates_def)
    show ?thesis
    proof (cases "migrate_by_move E")
      case True
      from Reserve_grow_move[OF True al gt, of tr] show ?thesis
        using ret False by (auto simp: Let_def split: if_splits)
    next
      case nm: False
      from Reserve_grow_copy[OF nm al gt, of tr] show ?thesis
        using ret False by (auto simp: Let_def split: if_splits)
    qed
  qed
qed

lemma Resize_returned:
  assumes f: "fits E n"
    and ret: "Resize E n (vector_with xs rs, tr) = Returned () (v', tr')"
  shows "Vector_inv v'"
proof -
  consider "n = length xs" | "n < length xs" | "length xs < n" by linarith
  then show ?thesis
  proof cases
    case 1
    then show ?thesis using ret by (auto simp: Resize_same Vector_inv_vector_with)
  next
    case 2
    from Resize_shrink[OF 2, of E rs tr] ret show ?thesis by (auto simp: Vector_inv_vector_with)
  next
    case 3
    from ret 3 obtain v1 tr1 where
      rs: "Reserve E n (vector_with xs rs, tr) = Returned () (v1, tr1)"
      and dc: "(case uninitialized_default_construct_n E (slots_of v1) (m_size v1) (n - m_size v1) tr1 of
                  Thrown (buf, tr2) \<Rightarrow> Thrown (with_slots v1 buf, tr2)
                | Returned _ (buf, tr2) \<Rightarrow> Returned () ((with_slots v1 buf)\<lparr>m_size := n\<rparr>, tr2)
                | Undefined \<Rightarrow> Undefined) = Returned () (v', tr')"
      by (auto simp: Resize_def split: outcome.splits)
    from Reserve_returned[OF f rs] obtain rs1 where
      v1: "v1 = vector_with xs rs1" and n: "n \<le> length xs + length rs1"
      using 3 by (cases "n \<le> length xs + length rs") (auto simp: vector_of_with)
    have "Reserve E n (v1, tr1) = Returned () (v1, tr1)" using v1 n by (simp add: Reserve_enough)
    then have "Resize E n (vector_with xs rs1, tr1) = Returned () (v', tr')"
      using dc[unfolded v1] 3 v1 by (simp add: Resize_def)
    with Resize_grow_within[OF n 3, of E tr1] show ?thesis
      by (auto simp: Let_def Vector_inv_vector_with split: if_splits)
  qed
qed

lemma Vector_sized_returned:
  assumes f: "fits E n" and ret: "Vector_sized E n tr = Returned v tr'"
  shows "Vector_inv v"
proof -
  let ?buf = "replicate n (Raw None :: 'a slot)"
  let ?rs = "map bytes (take n (drop 0 ?buf))"
  let ?k = "length (takeWhile (\<lambda>r. value_init E r \<noteq> None) ?rs)"
  let ?ds = "map (\<lambda>r. the (value_init E r)) (take ?k ?rs)"
  have new: "RawMemory_new E n tr \<noteq> None \<Longrightarrow>
    RawMemory_new E n tr = Some (\<lparr>m_buffer = ?buf, m_capacity = n\<rparr>,
                                 if n \<noteq> 0 then tr @ [Allocated n] else tr)"
    by (simp add: RawMemory_new_fits[OF f] split: if_splits)
  have pre: "0 + n \<le> length ?buf" by simp
  note C = uninitialized_construct_n_eq[OF pre, of "value_init E", unfolded Let_def]
  from ret have k: "?k = n" and v: "v = \<lparr>m_data = \<lparr>m_buffer = map Object ?ds, m_capacity = n\<rparr>, m_size = n\<rparr>"
    using new
    by (auto simp: Vector_sized_def uninitialized_value_construct_n_def C
          split: option.splits if_splits)
  have "length ?ds = n" using k by simp
  then have "v = vector_with ?ds []" using v by (simp add: vector_with_def)
  then show ?thesis by (simp add: Vector_inv_vector_with)
qed

lemma PopBack_returned:
  assumes ret: "PopBack (vector_with xs rs, tr) = Returned () (v', tr')"
  shows "v' = vector_with (butlast xs) (Some (last xs) # rs)"
proof (cases "xs = []")
  case True
  then show ?thesis using ret by (simp add: PopBack_def)
next
  case False
  then have xs: "xs = butlast xs @ [last xs]" by simp
  from PopBack_eq[of "butlast xs" "last xs" rs tr] show ?thesis using ret xs by simp
qed

lemma EmplaceBack_keeps_inv:
  assumes "Vector_inv v" "EmplaceBack E a (v, tr) = Returned i (v', tr')"
  shows "Vector_inv v'"
proof -
  from assms(1) obtain xs rs where v: "v = vector_with xs rs"
    by (auto simp: Vector_inv_iff)
  from EmplaceBack_returned[of E a xs rs tr i v' tr'] assms(2) v obtain x where
    "v' = (if rs = [] then vector_of (xs @ [x]) (grown (length xs))
           else vector_with (xs @ [x]) (tl rs))"
    by auto
  then show ?thesis
    using grown_gt[of "length xs"]
    by (auto simp: Vector_inv_vector_with intro!: Vector_inv_vector_of)
qed

lemma Emplace_keeps_inv:
  assumes "Vector_inv v" "Emplace E p a (v, tr) = Returned i (v', tr')"
  shows "Vector_inv v'"
proof -
  from assms(1) obtain xs rs where v: "v = vector_with xs rs"
    by (auto simp: Vector_inv_iff)
  have p: "p \<le> length xs"
  proof (rule ccontr)
    assume "\<not> p \<le> length xs"
    then have "Emplace E p a (v, tr) = Undefined" using v by (simp add: Emplace_def)
    then show False using assms(2) by simp
  qed
  from Emplace_returned[OF p, of E a rs tr i v' tr'] assms(2) v obtain x where
    "v' = (if rs = [] then vector_of (take p xs @ x # drop p xs) (grown (length xs))
           else vector_with (take p xs @ x # drop p xs) (tl rs))"
    by auto
  then show ?thesis
    using p grown_gt[of "length xs"]
    by (auto simp: Vector_inv_vector_with intro!: Vector_inv_vector_of)
qed

lemma Erase_keeps_inv:
  assumes "Vector_inv v" "Erase E p (v, tr) = Returned i (v', tr')"
  shows "Vector_inv v'"
proof -
  from assms(1) obtain xs rs where v: "v = vector_with xs rs"
    by (auto simp: Vector_inv_iff)
  have p: "p < length xs"
  proof (rule ccontr)
    assume "\<not> p < length xs"
    then have "Erase E p (v, tr) = Undefined" using v by (simp add: Erase_def)
    then show False using assms(2) by simp
  qed
  from Erase_returned[OF p, of E rs tr i v' tr'] assms(2) v
  show ?thesis by (auto simp: Vector_inv_vector_with)
qed

lemma unrepresentable_block_short:
  assumes "\<not> (0 < s \<and> n * s < 2 ^ 64)" "n \<noteq> 0"
  shows "size_t_mul n s div s < n"
proof (cases "s = 0")
  case True
  then show ?thesis using assms(2) by simp
next
  case False
  then have s: "0 < s" by simp
  with assms(1) have big: "(2::nat) ^ 64 \<le> n * s" by simp
  have "(n * s) mod 2 ^ 64 < (2::nat) ^ 64" by simp
  then have "(n * s) mod 2 ^ 64 < n * s" using big by linarith
  then show ?thesis using s by (simp add: size_t_mul_def div_less_iff_less_mult)
qed

lemma Vector_copy_keeps_inv:
  assumes "Vector_inv u" "Vector_copy E u tr = Returned v tr'"
  shows "Vector_inv v"
proof -
  from assms(1) obtain ys rs where u: "u = vector_with ys rs"
    by (auto simp: Vector_inv_iff)
  show ?thesis
  proof (cases "fits E (length ys)")
    case True
    from Vector_copy_eq[OF True, of rs tr] assms(2) u
    have "v = vector_with ys []" by (auto simp: Let_def split: if_splits)
    then show ?thesis by (simp add: Vector_inv_vector_with)
  next
    case nf: False
    let ?src = "map Object ys @ map Raw rs"
    from assms(2) u obtain d tr1 s1 u1 where
      n: "RawMemory_new E (length ys) tr = Some (d, tr1)"
      and c: "uninitialized_copy_n E ?src 0 (length ys) (m_buffer d) 0 tr1 = Returned u1 s1"
      and v: "v = \<lparr>m_data = d\<lparr>m_buffer := fst s1\<rparr>, m_size = length ys\<rparr>"
      by (auto simp: Vector_copy_def split: option.splits outcome.splits prod.splits)
    have room: "length ys = 0 \<or> length ys \<le> length (m_buffer d)"
      using uninitialized_copy_from_room[of E ?src 0 "length ys" "m_buffer d" 0 0 tr1 u1 s1] c
      by (auto simp: uninitialized_copy_n_def)
    have short: "length ys = 0 \<or> length (m_buffer d) < length ys"
      using n nf unrepresentable_block_short[of "sizeof_T E" "length ys"]
      by (auto simp: RawMemory_new_def Allocate_def fits_def split: if_splits)
    from room short have "length ys = 0" by linarith
    then have e: "ys = []" by simp
    then have "v = vector_with [] []"
      using v n c
      by (auto simp: RawMemory_new_def Allocate_def uninitialized_copy_n_def vector_with_def)
    then show ?thesis by (simp add: Vector_inv_vector_with)
  qed
qed

lemma copy_assign_keeps_inv:
  assumes t: "Vector_inv (st this)" and r: "Vector_inv (st rhs)"
    and ret: "copy_assign E this rhs (st, tr) = Returned () (st', tr')"
  shows "Vector_inv (st' this)"
proof (cases "this = rhs")
  case True
  then show ?thesis using ret t by (simp add: copy_assign_def)
next
  case ne: False
  from t obtain xs rs where x: "st this = vector_with xs rs"
    by (auto simp: Vector_inv_iff)
  from r obtain ys rs' where y: "st rhs = vector_with ys rs'"
    by (auto simp: Vector_inv_iff)
  show ?thesis
  proof (cases "length xs + length rs < length ys")
    case True
    from ret ne True x y obtain w tr1 where
      c: "Vector_copy E (st rhs) tr = Returned w tr1" and s: "st' = st(this := w)"
      by (auto simp: copy_assign_def Swap_eq Capacity_def
            split: outcome.splits option.splits prod.splits)
    from Vector_copy_keeps_inv[OF r c] s show ?thesis by simp
  next
    case False
    then have room: "length ys \<le> length xs + length rs" by simp
    from copy_assign_in_place_returned[OF x y room ne ret]
    show ?thesis by (auto simp: Vector_inv_vector_with)
  qed
qed

text \<open>
  Every operation that returns keeps the invariant, so it holds of every vector reached
  by calls that return, as long as each count passed has a byte size that \<^verbatim>\<open>size_t\<close>
  holds.
\<close>

theorem reachable_inv: "reachable E v \<Longrightarrow> Vector_inv v"
proof (induction rule: reachable.induct)
  case by_default
  show ?case by (simp add: Vector_default_eq Vector_inv_vector_of)
next
  case (by_size n tr v tr')
  then show ?case using Vector_sized_returned[of E n tr v tr'] by simp
next
  case (by_copy u tr v tr')
  then show ?case using Vector_copy_keeps_inv by blast
next
  case (by_move u v u')
  then show ?case by (simp add: Vector_move_def Swap_eq)
next
  case (moved_out u v u')
  then show ?case by (auto simp: Vector_move_def Swap_eq Vector_default_eq Vector_inv_vector_of)
next
  case (by_copy_assign st this rhs tr st' tr')
  then show ?case using copy_assign_keeps_inv by blast
next
  case (by_move_assign st this rhs)
  then show ?case by (simp add: move_assign_def Swap_at_eq)
next
  case (move_assigned_from st this rhs)
  then show ?case by (simp add: move_assign_def Swap_at_eq)
next
  case (by_swap u w u' w')
  then show ?case by (simp add: Swap_eq)
next
  case (swapped u w u' w')
  then show ?case by (simp add: Swap_eq)
next
  case (by_reserve v n tr v' tr')
  from by_reserve.IH obtain xs rs where v: "v = vector_with xs rs"
    by (auto simp: Vector_inv_iff)
  from Reserve_returned[OF by_reserve.hyps(2), of xs rs tr v' tr'] by_reserve.hyps(3) v
  have "v' = (if n \<le> length xs + length rs then vector_with xs rs else vector_of xs n)" by simp
  then show ?case by (auto simp: Vector_inv_vector_with intro!: Vector_inv_vector_of)
next
  case (by_resize v n tr v' tr')
  from by_resize.IH obtain xs rs where v: "v = vector_with xs rs"
    by (auto simp: Vector_inv_iff)
  from Resize_returned[OF by_resize.hyps(2), of xs rs tr v' tr'] by_resize.hyps(3) v
  show ?case by simp
next
  case (by_emplace_back v a tr i v' tr')
  then show ?case using EmplaceBack_keeps_inv by blast
next
  case (by_push_back v val tr i v' tr')
  then show ?case using EmplaceBack_keeps_inv unfolding PushBack_def by blast
next
  case (by_push_back_rvalue v val tr i v' tr')
  then show ?case using EmplaceBack_keeps_inv unfolding PushBack_rvalue_def by blast
next
  case (by_pop_back v tr v' tr')
  from by_pop_back.IH obtain xs rs where v: "v = vector_with xs rs"
    by (auto simp: Vector_inv_iff)
  from PopBack_returned[of xs rs tr v' tr'] by_pop_back.hyps(2) v
  show ?case by (simp add: Vector_inv_vector_with)
next
  case (by_emplace v p a tr i v' tr')
  then show ?case using Emplace_keeps_inv by blast
next
  case (by_insert v p val tr i v' tr')
  then show ?case using Emplace_keeps_inv unfolding Insert_def by blast
next
  case (by_insert_rvalue v p val tr i v' tr')
  then show ?case using Emplace_keeps_inv unfolding Insert_rvalue_def by blast
next
  case (by_erase v p tr i v' tr')
  then show ?case using Erase_keeps_inv by blast
qed

text \<open>
  C9 says that the invariant holds of every vector that the public operations reach. An
  exception in the branch of \<open>Emplace\<close> that inserts in place breaks it. A default
  vector reserves two slots and appends 1; it satisfies the invariant. Inserting 9 at the
  front, where move-assigning 9 throws, first move-constructs the last element into the
  slot behind the size and then fails in the assignment; the size was not yet incremented.
  The caller finds a vector of size 1 with a live object in slot 1, and the destructor of
  that vector releases the buffer with that object alive.
\<close>

theorem Insert_in_place_breaks_invariant:
  "Reserve Obj 2 (Vector_default, []) = Returned () (vector_of [] 2, [Allocated 2])
   \<and> PushBack Obj 1 (vector_of [] 2, [Allocated 2]) =
       Returned 0 (vector_of [1] 2, [Allocated 2, Constructed 1])
   \<and> Vector_inv (vector_of [1 :: nat] 2)
   \<and> Insert Obj 0 9 (vector_of [1] 2, [Allocated 2, Constructed 1]) =
       Thrown (\<lparr>m_data = \<lparr>m_buffer = [Object 0, Object 1], m_capacity = 2\<rparr>, m_size = 1\<rparr>,
               [Allocated 2, Constructed 1, Constructed 9, Moved 1, Destroyed 9])
   \<and> \<not> Vector_inv \<lparr>m_data = \<lparr>m_buffer = [Object 0, Object (1 :: nat)], m_capacity = 2\<rparr>, m_size = 1\<rparr>
   \<and> Vector_dtor \<lparr>m_data = \<lparr>m_buffer = [Object 0, Object (1 :: nat)], m_capacity = 2\<rparr>, m_size = 1\<rparr>
         [Allocated 2, Constructed 1, Constructed 9, Moved 1, Destroyed 9] =
       Some [Allocated 2, Constructed 1, Constructed 9, Moved 1, Destroyed 9, Destroyed 0,
             Released 2 [1]]"
  by code_simp

end
